theory Spec2Isabelle
  imports Complex_Main
begin

section \<open>The voxel graph of \<open>random_cube.py\<close>\<close>

text \<open>
  The program builds a grid of axis-aligned prisms, deletes prisms one at a time and
  lists the triangles of the prisms that are left. Coordinates are numbers of the
  caller; they are modelled as real numbers, so every sum, difference and product
  below is exact. Python's lists are HOL lists, indexed by integers with Python's rule
  for negative indices; an \<open>IndexError\<close> is the left summand of a result.
\<close>

subsection \<open>Python values and list indexing\<close>

datatype error = IndexError

definition bnd :: "error + 'a \<Rightarrow> ('a \<Rightarrow> error + 'b) \<Rightarrow> error + 'b" where
  "bnd m f = (case m of Inl e \<Rightarrow> Inl e | Inr v \<Rightarrow> f v)"

text \<open>\<open>py_index xs i\<close> is the position that the Python expression \<open>xs[i]\<close> denotes.\<close>

definition py_index :: "'a list \<Rightarrow> int \<Rightarrow> error + nat" where
  "py_index xs i =
     (let n = int (length xs); j = (if i < 0 then n + i else i)
      in if 0 \<le> j \<and> j < n then Inr (nat j) else Inl IndexError)"

definition py_get :: "'a list \<Rightarrow> int \<Rightarrow> error + 'a" where
  "py_get xs i = bnd (py_index xs i) (\<lambda>j. Inr (xs ! j))"

type_synonym 'a grid = "'a list list list"

type_synonym pos = "nat \<times> nat \<times> nat"

text \<open>The position denoted by \<open>grid[x][y][z]\<close>, and the element found there.\<close>

definition grid_index :: "'a grid \<Rightarrow> int \<Rightarrow> int \<Rightarrow> int \<Rightarrow> error + pos" where
  "grid_index g x y z =
     bnd (py_index g x) (\<lambda>i.
     bnd (py_index (g ! i) y) (\<lambda>j.
     bnd (py_index (g ! i ! j) z) (\<lambda>k. Inr (i, j, k))))"

fun grid_at :: "'a grid \<Rightarrow> pos \<Rightarrow> 'a" where
  "grid_at g (i, j, k) = g ! i ! j ! k"

definition grid_get :: "'a grid \<Rightarrow> int \<Rightarrow> int \<Rightarrow> int \<Rightarrow> error + 'a" where
  "grid_get g x y z = bnd (grid_index g x y z) (\<lambda>p. Inr (grid_at g p))"

text \<open>Assignment to a field of the object stored at a position of the grid.\<close>

fun grid_upd :: "'a grid \<Rightarrow> pos \<Rightarrow> 'a \<Rightarrow> 'a grid" where
  "grid_upd g (i, j, k) v = g[i := (g ! i)[j := (g ! i ! j)[k := v]]]"

subsection \<open>Orientation\<close>

datatype Orientation = DOWN | UP | LEFT | RIGHT | INTO | OUT_OF

text \<open>Iterating over the enumeration yields its members in definition order.\<close>

definition all_orientations :: "Orientation list" where
  "all_orientations = [DOWN, UP, LEFT, RIGHT, INTO, OUT_OF]"

text \<open>
  \<open>get_neighbour\<close> returns an element of the grid. The element is computed in two
  steps: \<open>neighbour_index\<close> is the position of the element that the selected
  \<open>return\<close> statement reads (with the source's guards and the source's index
  expressions), and \<open>get_neighbour\<close> reads the grid there. \<open>delete_prism\<close> mutates the
  returned node, which is the node stored at that position.
\<close>

fun neighbour_index :: "Orientation \<Rightarrow> 'a grid \<Rightarrow> int \<Rightarrow> int \<Rightarrow> int \<Rightarrow> error + pos option" where
  "neighbour_index UP grid x y z =
     bnd (py_get grid x) (\<lambda>row.
       if y \<noteq> int (length row) - 1
       then bnd (grid_index grid x (y + 1) z) (\<lambda>p. Inr (Some p))
       else Inr None)"
| "neighbour_index DOWN grid x y z =
     (if y \<noteq> 0
      then bnd (grid_index grid x (y - 1) z) (\<lambda>p. Inr (Some p))
      else Inr None)"
| "neighbour_index LEFT grid x y z =
     (if x \<noteq> 0
      then bnd (grid_index grid (x - 1) y z) (\<lambda>p. Inr (Some p))
      else Inr None)"
| "neighbour_index RIGHT grid x y z =
     (if x \<noteq> int (length grid) - 1
      then bnd (grid_index grid (x + 1) y z) (\<lambda>p. Inr (Some p))
      else Inr None)"
| "neighbour_index INTO grid x y z =
     bnd (py_get grid x) (\<lambda>row.
     bnd (py_get row y) (\<lambda>col.
       if z \<noteq> int (length col) - 1
       then bnd (grid_index grid x y (z + 1)) (\<lambda>p. Inr (Some p))
       else Inr None))"
| "neighbour_index OUT_OF grid x y z =
     (if z \<noteq> 0
      then bnd (grid_index grid x y (z - 1)) (\<lambda>p. Inr (Some p))
      else Inr None)"

definition get_neighbour :: "Orientation \<Rightarrow> 'a grid \<Rightarrow> int \<Rightarrow> int \<Rightarrow> int \<Rightarrow> error + 'a option" where
  "get_neighbour ori grid x y z =
     bnd (neighbour_index ori grid x y z) (\<lambda>p. Inr (map_option (grid_at grid) p))"

fun reverse :: "Orientation \<Rightarrow> Orientation" where
  "reverse DOWN = UP"
| "reverse UP = DOWN"
| "reverse LEFT = RIGHT"
| "reverse RIGHT = LEFT"
| "reverse INTO = OUT_OF"
| "reverse OUT_OF = INTO"

subsection \<open>Rectangle\<close>

type_synonym point = "real \<times> real \<times> real"

text \<open>A triangle is a Python list of three points.\<close>

type_synonym triangle = "point list"

record Rectangle =
  ll :: point
  tl_corner :: point
  lr :: point
  tr :: point
  orientation :: Orientation

definition faces :: "Rectangle \<Rightarrow> triangle list" where
  "faces r =
     (if orientation r \<in> set [UP, RIGHT, OUT_OF]
      then [[ll r, tr r, tl_corner r], [ll r, lr r, tr r]]
      else [[ll r, tl_corner r, tr r], [ll r, tr r, lr r]])"

subsection \<open>Prism\<close>

record Prism =
  vx_000 :: point
  vx_001 :: point
  vx_010 :: point
  vx_011 :: point
  vx_100 :: point
  vx_101 :: point
  vx_110 :: point
  vx_111 :: point

text \<open>
  The argument of \<open>triangle_slice\<close> is any Python collection; its members are compared
  with an \<open>Orientation\<close> by \<open>==\<close>. The callers pass orientations or prisms, so a member
  is one of the two. An enumeration member equals only itself, a prism (a dataclass)
  equals only a prism with equal fields, and an orientation never equals a prism:
  this is the equality of the datatype.
\<close>

datatype pyval = VOrientation Orientation | VPrism Prism

definition rectangles :: "Prism \<Rightarrow> Rectangle list" where
  "rectangles p =
     [\<lparr>ll = vx_000 p, tl_corner = vx_001 p, lr = vx_010 p, tr = vx_011 p, orientation = LEFT\<rparr>,
      \<lparr>ll = vx_100 p, tl_corner = vx_101 p, lr = vx_110 p, tr = vx_111 p, orientation = RIGHT\<rparr>,
      \<lparr>ll = vx_001 p, tl_corner = vx_011 p, lr = vx_101 p, tr = vx_111 p, orientation = UP\<rparr>,
      \<lparr>ll = vx_000 p, tl_corner = vx_010 p, lr = vx_100 p, tr = vx_110 p, orientation = DOWN\<rparr>,
      \<lparr>ll = vx_010 p, tl_corner = vx_011 p, lr = vx_110 p, tr = vx_111 p, orientation = INTO\<rparr>,
      \<lparr>ll = vx_000 p, tl_corner = vx_001 p, lr = vx_100 p, tr = vx_101 p, orientation = OUT_OF\<rparr>]"

text \<open>
  \<open>suppress_orientations or set()\<close>: \<open>None\<close> and an empty collection are both replaced
  by the empty set.
\<close>

definition triangle_slice :: "Prism \<Rightarrow> pyval list option \<Rightarrow> triangle list" where
  "triangle_slice p suppress_orientations =
     (let suppress = (case suppress_orientations of
                        None \<Rightarrow> []
                      | Some s \<Rightarrow> if s = [] then [] else s)
      in concat (map faces
           (filter (\<lambda>r. VOrientation (orientation r) \<notin> set suppress) (rectangles p))))"

definition volume :: "Prism \<Rightarrow> real" where
  "volume p =
     (fst (vx_100 p) - fst (vx_000 p)) *
     (fst (snd (vx_010 p)) - fst (snd (vx_000 p))) *
     (snd (snd (vx_001 p)) - snd (snd (vx_000 p)))"

subsection \<open>PrismGraph\<close>

text \<open>
  The dictionary of a node is an association list in insertion order, with one entry
  for each key. The values are the prisms of \<open>prism_grid\<close>: immutable objects, shared
  with the nodes that hold them.
\<close>

record PrismGraphNode =
  prism :: "Prism option"
  neighbour_map :: "(Orientation \<times> Prism) list"

type_synonym PrismGraph = "PrismGraphNode grid"

text \<open>\<open>d.pop(key, None)\<close> removes the entry of the key when there is one.\<close>

definition dict_pop :: "'k \<Rightarrow> ('k \<times> 'v) list \<Rightarrow> ('k \<times> 'v) list" where
  "dict_pop key d = filter (\<lambda>kv. fst kv \<noteq> key) d"

definition prism_grid :: "real list \<Rightarrow> real list \<Rightarrow> real list \<Rightarrow> Prism grid" where
  "prism_grid x_grid y_grid z_grid =
     map (\<lambda>(x, x_next).
       map (\<lambda>(y, y_next).
         map (\<lambda>(z, z_next).
           \<lparr>vx_000 = (x, y, z), vx_001 = (x, y, z_next),
            vx_010 = (x, y_next, z), vx_011 = (x, y_next, z_next),
            vx_100 = (x_next, y, z), vx_101 = (x_next, y, z_next),
            vx_110 = (x_next, y_next, z), vx_111 = (x_next, y_next, z_next)\<rparr>)
         (zip z_grid (drop 1 z_grid)))
       (zip y_grid (drop 1 y_grid)))
     (zip x_grid (drop 1 x_grid))"

text \<open>A comprehension whose element expression can raise.\<close>

fun map_result :: "('a \<Rightarrow> error + 'b) \<Rightarrow> 'a list \<Rightarrow> error + 'b list" where
  "map_result f [] = Inr []"
| "map_result f (x # xs) =
     bnd (f x) (\<lambda>v. bnd (map_result f xs) (\<lambda>vs. Inr (v # vs)))"

text \<open>
  The dictionary comprehension of a node. It calls \<open>get_neighbour\<close> twice on the same
  unchanged \<open>prism_grid\<close>, in the filter and for the value; a prism is truthy, so the
  filter keeps an orientation exactly when the call returns a prism.
\<close>

fun neighbour_dict :: "Prism grid \<Rightarrow> int \<Rightarrow> int \<Rightarrow> int \<Rightarrow> Orientation list \<Rightarrow>
    error + (Orientation \<times> Prism) list" where
  "neighbour_dict pg x y z [] = Inr []"
| "neighbour_dict pg x y z (ori # os) =
     bnd (get_neighbour ori pg x y z) (\<lambda>c.
       case c of
         None \<Rightarrow> neighbour_dict pg x y z os
       | Some _ \<Rightarrow>
           bnd (get_neighbour ori pg x y z) (\<lambda>v.
           bnd (neighbour_dict pg x y z os) (\<lambda>d.
             Inr (case v of None \<Rightarrow> d | Some q \<Rightarrow> (ori, q) # d))))"

definition PrismGraph_init :: "real list \<Rightarrow> real list \<Rightarrow> real list \<Rightarrow> error + PrismGraph" where
  "PrismGraph_init x_grid y_grid z_grid =
     (let pg = prism_grid x_grid y_grid z_grid in
      map_result (\<lambda>x.
        map_result (\<lambda>y.
          map_result (\<lambda>z.
            bnd (grid_get pg (int x) (int y) (int z)) (\<lambda>p.
            bnd (neighbour_dict pg (int x) (int y) (int z) all_orientations) (\<lambda>d.
              Inr \<lparr>prism = Some p, neighbour_map = d\<rparr>)))
          [0 ..< length (pg ! x ! y)])
        [0 ..< length (pg ! x)])
      [0 ..< length pg])"

text \<open>
  The loop of \<open>delete_prism\<close> over the orientations: the node that \<open>get_neighbour\<close>
  returns (a node is truthy) loses the entry of the reverse orientation. By the
  definition of \<open>get_neighbour\<close> that node is the one stored at \<open>neighbour_index\<close>, and
  the nodes of a graph are distinct objects, one for each position, so the mutation
  is an update of the graph at that position. The dictionary of the node at
  \<open>(x, y, z)\<close> itself is never read.
\<close>

fun unlink :: "PrismGraph \<Rightarrow> int \<Rightarrow> int \<Rightarrow> int \<Rightarrow> Orientation list \<Rightarrow> error + PrismGraph" where
  "unlink g x y z [] = Inr g"
| "unlink g x y z (ori # os) =
     bnd (neighbour_index ori g x y z) (\<lambda>nb.
       case nb of
         None \<Rightarrow> unlink g x y z os
       | Some q \<Rightarrow>
           unlink
             (grid_upd g q
                ((grid_at g q)\<lparr>neighbour_map := dict_pop (reverse ori) (neighbour_map (grid_at g q))\<rparr>))
             x y z os)"

text \<open>
  \<open>delete_prism\<close> returns the volume and the graph after the call. When the call raises,
  the result is the error alone; the theorems below are about calls that return.
\<close>

definition delete_prism :: "PrismGraph \<Rightarrow> int \<Rightarrow> int \<Rightarrow> int \<Rightarrow> error + (real \<times> PrismGraph)" where
  "delete_prism g x y z =
     bnd (grid_index g x y z) (\<lambda>p.
       case prism (grid_at g p) of
         None \<Rightarrow> Inr (0, g)
       | Some pr \<Rightarrow>
           (let vol = volume pr;
                g1 = grid_upd g p ((grid_at g p)\<lparr>prism := None\<rparr>)
            in bnd (unlink g1 x y z all_orientations) (\<lambda>g2. Inr (vol, g2))))"

text \<open>
  \<open>to_mesh\<close>: the list \<open>faces_vec\<close>, which the source then copies, triangle by triangle,
  into the mesh object of the external library. The suppression argument is
  \<open>node.neighbour_map.values()\<close>, the prisms stored in the dictionary.
\<close>

definition to_mesh :: "PrismGraph \<Rightarrow> triangle list" where
  "to_mesh g =
     concat (map (\<lambda>n_x.
       concat (map (\<lambda>n_y.
         concat (map (\<lambda>node.
           case prism node of
             None \<Rightarrow> []
           | Some pr \<Rightarrow> triangle_slice pr (Some (map (\<lambda>kv. VPrism (snd kv)) (neighbour_map node))))
         n_y))
       n_x))
     g)"

text \<open>A driver that calls \<open>delete_prism\<close> on a sequence of indices and collects the returned volumes.\<close>

fun delete_all :: "PrismGraph \<Rightarrow> (int \<times> int \<times> int) list \<Rightarrow> error + (real list \<times> PrismGraph)" where
  "delete_all g [] = Inr ([], g)"
| "delete_all g ((x, y, z) # ps) =
     bnd (delete_prism g x y z) (\<lambda>(v, g1).
     bnd (delete_all g1 ps) (\<lambda>(vs, g2). Inr (v # vs, g2)))"

subsection \<open>Grids of a given shape\<close>

text \<open>
  The properties below are stated for grids in which all rows and all columns have the
  same lengths, and for positions inside them. \<open>neighbour_pos\<close> is the geometric
  neighbour of a position: one step along the axis of the orientation, when that
  position lies inside the grid.
\<close>

definition rect_grid :: "pos \<Rightarrow> 'a grid \<Rightarrow> bool" where
  "rect_grid d g =
     (case d of (nx, ny, nz) \<Rightarrow>
        length g = nx \<and> (\<forall>row \<in> set g. length row = ny \<and> (\<forall>col \<in> set row. length col = nz)))"

fun in_grid :: "pos \<Rightarrow> pos \<Rightarrow> bool" where
  "in_grid (nx, ny, nz) (i, j, k) = (i < nx \<and> j < ny \<and> k < nz)"

fun neighbour_pos :: "Orientation \<Rightarrow> pos \<Rightarrow> pos \<Rightarrow> pos option" where
  "neighbour_pos UP (nx, ny, nz) (i, j, k) = (if j + 1 < ny then Some (i, j + 1, k) else None)"
| "neighbour_pos DOWN (nx, ny, nz) (i, j, k) = (if 0 < j then Some (i, j - 1, k) else None)"
| "neighbour_pos LEFT (nx, ny, nz) (i, j, k) = (if 0 < i then Some (i - 1, j, k) else None)"
| "neighbour_pos RIGHT (nx, ny, nz) (i, j, k) = (if i + 1 < nx then Some (i + 1, j, k) else None)"
| "neighbour_pos INTO (nx, ny, nz) (i, j, k) = (if k + 1 < nz then Some (i, j, k + 1) else None)"
| "neighbour_pos OUT_OF (nx, ny, nz) (i, j, k) = (if 0 < k then Some (i, j, k - 1) else None)"

text \<open>The shape of the grid built from three sequences of breakpoints.\<close>

definition grid_dims :: "'a list \<Rightarrow> 'b list \<Rightarrow> 'c list \<Rightarrow> pos" where
  "grid_dims x_grid y_grid z_grid = (length x_grid - 1, length y_grid - 1, length z_grid - 1)"

text \<open>
  \<open>links pg live d p\<close> lists, in the order of the enumeration, the orientations in which
  the position \<open>p\<close> has a geometric neighbour that \<open>live\<close> accepts, each with the prism
  of \<open>pg\<close> at that neighbour.
\<close>

definition links :: "Prism grid \<Rightarrow> (pos \<Rightarrow> bool) \<Rightarrow> pos \<Rightarrow> pos \<Rightarrow> (Orientation \<times> Prism) list" where
  "links pg live d p =
     concat (map (\<lambda>ori. case neighbour_pos ori d p of
                           None \<Rightarrow> []
                         | Some q \<Rightarrow> if live q then [(ori, grid_at pg q)] else [])
                 all_orientations)"

subsection \<open>Graph states\<close>

definition present :: "PrismGraph \<Rightarrow> pos \<Rightarrow> bool" where
  "present g p = (prism (grid_at g p) \<noteq> None)"

text \<open>
  Indices of a call of \<open>delete_prism\<close> that lie inside a grid of the given shape: each
  from 0 up to, and not including, the dimension of its axis.
\<close>

fun in_dims :: "pos \<Rightarrow> int \<times> int \<times> int \<Rightarrow> bool" where
  "in_dims (nx, ny, nz) (x, y, z) =
     (0 \<le> x \<and> x < int nx \<and> 0 \<le> y \<and> y < int ny \<and> 0 \<le> z \<and> z < int nz)"

text \<open>
  The relation between a graph and the breakpoints it was built from that construction
  establishes and every deletion inside the grid keeps: the shape, the prism of every
  node (absent or the one of \<open>prism_grid\<close>), and the dictionary of every node, which
  holds the orientations whose geometric neighbour still has its prism.
\<close>

definition consistent :: "real list \<Rightarrow> real list \<Rightarrow> real list \<Rightarrow> PrismGraph \<Rightarrow> bool" where
  "consistent xs ys zs g =
     (rect_grid (grid_dims xs ys zs) g \<and>
      (\<forall>p. in_grid (grid_dims xs ys zs) p \<longrightarrow>
         (prism (grid_at g p) = None \<or> prism (grid_at g p) = Some (grid_at (prism_grid xs ys zs) p)) \<and>
         neighbour_map (grid_at g p) =
           links (prism_grid xs ys zs) (present g) (grid_dims xs ys zs) p))"

subsection \<open>A small graph\<close>

text \<open>
  Two unit cubes side by side along x: the graph built from the breakpoints
  \<open>[0, 1, 2]\<close>, \<open>[0, 1]\<close>, \<open>[0, 1]\<close>, the graph after the cube at index \<open>(1, 0, 0)\<close> is
  deleted, and the graph after the cube at \<open>(0, 0, 0)\<close> is deleted as well.
\<close>

definition cube_0 :: Prism where
  "cube_0 =
     \<lparr>vx_000 = (0, 0, 0), vx_001 = (0, 0, 1), vx_010 = (0, 1, 0), vx_011 = (0, 1, 1),
      vx_100 = (1, 0, 0), vx_101 = (1, 0, 1), vx_110 = (1, 1, 0), vx_111 = (1, 1, 1)\<rparr>"

definition cube_1 :: Prism where
  "cube_1 =
     \<lparr>vx_000 = (1, 0, 0), vx_001 = (1, 0, 1), vx_010 = (1, 1, 0), vx_011 = (1, 1, 1),
      vx_100 = (2, 0, 0), vx_101 = (2, 0, 1), vx_110 = (2, 1, 0), vx_111 = (2, 1, 1)\<rparr>"

definition two_cubes :: PrismGraph where
  "two_cubes =
     [[[\<lparr>prism = Some cube_0, neighbour_map = [(RIGHT, cube_1)]\<rparr>]],
      [[\<lparr>prism = Some cube_1, neighbour_map = [(LEFT, cube_0)]\<rparr>]]]"

definition two_cubes_del_1 :: PrismGraph where
  "two_cubes_del_1 =
     [[[\<lparr>prism = Some cube_0, neighbour_map = []\<rparr>]],
      [[\<lparr>prism = None, neighbour_map = [(LEFT, cube_0)]\<rparr>]]]"

definition two_cubes_del_both :: PrismGraph where
  "two_cubes_del_both =
     [[[\<lparr>prism = None, neighbour_map = []\<rparr>]],
      [[\<lparr>prism = None, neighbour_map = []\<rparr>]]]"

subsection \<open>Volume of a graph\<close>

definition node_volume :: "PrismGraphNode \<Rightarrow> real" where
  "node_volume n = (case prism n of None \<Rightarrow> 0 | Some p \<Rightarrow> volume p)"

text \<open>The sum of the volumes of the prisms that are present.\<close>

definition total_volume :: "PrismGraph \<Rightarrow> real" where
  "total_volume g = sum_list (map node_volume (concat (concat g)))"

subsection \<open>Normals\<close>

text \<open>
  A prism is valid when its corners are the eight combinations of a low and a strictly
  greater high coordinate on each axis, as \<open>prism_grid\<close> builds them from increasing
  breakpoints.
\<close>

definition valid_prism :: "Prism \<Rightarrow> bool" where
  "valid_prism p =
     (case vx_000 p of (x, y, z) \<Rightarrow>
      case vx_111 p of (xn, yn, zn) \<Rightarrow>
        x < xn \<and> y < yn \<and> z < zn \<and>
        vx_001 p = (x, y, zn) \<and> vx_010 p = (x, yn, z) \<and> vx_011 p = (x, yn, zn) \<and>
        vx_100 p = (xn, y, z) \<and> vx_101 p = (xn, y, zn) \<and> vx_110 p = (xn, yn, z))"

fun sub3 :: "point \<Rightarrow> point \<Rightarrow> point" where
  "sub3 (a1, a2, a3) (b1, b2, b3) = (a1 - b1, a2 - b2, a3 - b3)"

fun cross :: "point \<Rightarrow> point \<Rightarrow> point" where
  "cross (a1, a2, a3) (b1, b2, b3) = (a2 * b3 - a3 * b2, a3 * b1 - a1 * b3, a1 * b2 - a2 * b1)"

fun dot :: "point \<Rightarrow> point \<Rightarrow> real" where
  "dot (a1, a2, a3) (b1, b2, b3) = a1 * b1 + a2 * b2 + a3 * b3"

text \<open>The normal of a triangle: the cross product of its edges in listed vertex order.\<close>

fun normal :: "triangle \<Rightarrow> point" where
  "normal [a, b, c] = cross (sub3 b a) (sub3 c a)"
| "normal t = (0, 0, 0)"

definition centroid :: "Prism \<Rightarrow> point" where
  "centroid p =
     (let cs = [vx_000 p, vx_001 p, vx_010 p, vx_011 p, vx_100 p, vx_101 p, vx_110 p, vx_111 p]
      in (sum_list (map fst cs) / 8,
          sum_list (map (\<lambda>c. fst (snd c)) cs) / 8,
          sum_list (map (\<lambda>c. snd (snd c)) cs) / 8))"

text \<open>A triangle points away from the centroid: seen from every vertex, the normal leaves the prism.\<close>

definition outward :: "Prism \<Rightarrow> triangle \<Rightarrow> bool" where
  "outward p t = (length t = 3 \<and> list_all (\<lambda>v. 0 < dot (normal t) (sub3 v (centroid p))) t)"

section \<open>Indexing inside a grid\<close>

lemma bnd_Inr [simp]: "bnd (Inr v) f = f v"
  by (simp add: bnd_def)

lemma bnd_Inl [simp]: "bnd (Inl e) f = Inl e"
  by (simp add: bnd_def)

lemma py_index_in: "0 \<le> i \<Longrightarrow> i < int (length xs) \<Longrightarrow> py_index xs i = Inr (nat i)"
  by (simp add: py_index_def)

lemma py_get_in: "0 \<le> i \<Longrightarrow> i < int (length xs) \<Longrightarrow> py_get xs i = Inr (xs ! nat i)"
  by (simp add: py_get_def py_index_in)

lemma rect_gridD:
  assumes "rect_grid (nx, ny, nz) g"
  shows "length g = nx"
    and "i < nx \<Longrightarrow> length (g ! i) = ny"
    and "i < nx \<Longrightarrow> j < ny \<Longrightarrow> length (g ! i ! j) = nz"
proof -
  show l: "length g = nx" using assms by (simp add: rect_grid_def)
  show "length (g ! i) = ny" if "i < nx"
    using assms that l nth_mem[of i g] by (simp add: rect_grid_def)
  show "length (g ! i ! j) = nz" if "i < nx" "j < ny"
  proof -
    have m: "g ! i \<in> set g" using that l by simp
    then have "length (g ! i) = ny" using assms by (simp add: rect_grid_def)
    then have "g ! i ! j \<in> set (g ! i)" using that by simp
    then show ?thesis using assms m by (simp add: rect_grid_def)
  qed
qed

lemma rect_gridI:
  assumes "length g = nx"
    and "\<And>i. i < nx \<Longrightarrow> length (g ! i) = ny"
    and "\<And>i j. i < nx \<Longrightarrow> j < ny \<Longrightarrow> length (g ! i ! j) = nz"
  shows "rect_grid (nx, ny, nz) g"
proof -
  have "length row = ny \<and> (\<forall>col \<in> set row. length col = nz)" if "row \<in> set g" for row
  proof -
    have "\<exists>i. i < nx \<and> row = g ! i"
      using \<open>row \<in> set g\<close> assms(1) by (auto simp: in_set_conv_nth)
    then obtain i where i: "i < nx" "row = g ! i" by blast
    have l: "length row = ny" using i assms(2) by simp
    have "length col = nz" if "col \<in> set row" for col
    proof -
      have "\<exists>j. j < ny \<and> col = row ! j"
        using \<open>col \<in> set row\<close> l by (auto simp: in_set_conv_nth)
      then obtain j where "j < ny" "col = row ! j" by blast
      then show ?thesis using i assms(3) by simp
    qed
    then show ?thesis using l by simp
  qed
  then show ?thesis using assms(1) by (simp add: rect_grid_def)
qed

lemma grid_index_in:
  assumes "rect_grid (nx, ny, nz) g"
    and "0 \<le> x" "x < int nx" "0 \<le> y" "y < int ny" "0 \<le> z" "z < int nz"
  shows "grid_index g x y z = Inr (nat x, nat y, nat z)"
proof -
  note D = rect_gridD[OF assms(1)]
  have x: "nat x < nx" and y: "nat y < ny" using assms by simp_all
  have 1: "py_index g x = Inr (nat x)"
    using assms D(1) by (simp add: py_index_in)
  have 2: "py_index (g ! nat x) y = Inr (nat y)"
    using assms D(2)[OF x] by (simp add: py_index_in)
  have 3: "py_index (g ! nat x ! nat y) z = Inr (nat z)"
    using assms D(3)[OF x y] by (simp add: py_index_in)
  show ?thesis by (simp add: grid_index_def 1 2 3)
qed

lemma grid_index_nat:
  assumes "rect_grid (nx, ny, nz) g" "i < nx" "j < ny" "k < nz"
  shows "grid_index g (int i) (int j) (int k) = Inr (i, j, k)"
  using grid_index_in[OF assms(1), of "int i" "int j" "int k"] assms(2-) by simp

lemma grid_get_nat:
  assumes "rect_grid (nx, ny, nz) g" "i < nx" "j < ny" "k < nz"
  shows "grid_get g (int i) (int j) (int k) = Inr (g ! i ! j ! k)"
  using grid_index_nat[OF assms] by (simp add: grid_get_def)

lemma neighbour_index_nat:
  assumes r: "rect_grid (nx, ny, nz) g" and i: "i < nx" and j: "j < ny" and k: "k < nz"
  shows "neighbour_index ori g (int i) (int j) (int k) = Inr (neighbour_pos ori (nx, ny, nz) (i, j, k))"
proof -
  note D = rect_gridD[OF r]
  note G = grid_index_in[OF r]
  have row: "py_get g (int i) = Inr (g ! i)"
    using i D(1) by (simp add: py_get_in)
  have col: "py_get (g ! i) (int j) = Inr (g ! i ! j)"
    using j D(2)[OF i] by (simp add: py_get_in)
  have lr: "length (g ! i) = ny" by (rule D(2)[OF i])
  have lc: "length (g ! i ! j) = nz" by (rule D(3)[OF i j])
  show ?thesis
  proof (cases ori)
    case UP
    show ?thesis
    proof (cases "j + 1 < ny")
      case True
      have "grid_index g (int i) (int j + 1) (int k) = Inr (i, j + 1, k)"
        using G[of "int i" "int j + 1" "int k"] i k True by (simp add: nat_add_distrib)
      moreover have "int j \<noteq> int ny - 1" using True by linarith
      ultimately show ?thesis using UP True by (simp add: row lr)
    next
      case False
      then have "int j = int ny - 1" using j by linarith
      then show ?thesis using UP False by (simp add: row lr)
    qed
  next
    case DOWN
    show ?thesis
    proof (cases "0 < j")
      case True
      have "grid_index g (int i) (int j - 1) (int k) = Inr (i, j - 1, k)"
        using G[of "int i" "int j - 1" "int k"] i j k True by (simp add: nat_diff_distrib)
      then show ?thesis using DOWN True by simp
    next
      case False
      then show ?thesis using DOWN by simp
    qed
  next
    case LEFT
    show ?thesis
    proof (cases "0 < i")
      case True
      have "grid_index g (int i - 1) (int j) (int k) = Inr (i - 1, j, k)"
        using G[of "int i - 1" "int j" "int k"] i j k True by (simp add: nat_diff_distrib)
      then show ?thesis using LEFT True by simp
    next
      case False
      then show ?thesis using LEFT by simp
    qed
  next
    case RIGHT
    show ?thesis
    proof (cases "i + 1 < nx")
      case True
      have "grid_index g (int i + 1) (int j) (int k) = Inr (i + 1, j, k)"
        using G[of "int i + 1" "int j" "int k"] j k True by (simp add: nat_add_distrib)
      moreover have "int i \<noteq> int nx - 1" using True by linarith
      ultimately show ?thesis using RIGHT True by (simp add: D(1))
    next
      case False
      then have "int i = int nx - 1" using i by linarith
      then show ?thesis using RIGHT False by (simp add: D(1))
    qed
  next
    case INTO
    show ?thesis
    proof (cases "k + 1 < nz")
      case True
      have "grid_index g (int i) (int j) (int k + 1) = Inr (i, j, k + 1)"
        using G[of "int i" "int j" "int k + 1"] i j True by (simp add: nat_add_distrib)
      moreover have "int k \<noteq> int nz - 1" using True by linarith
      ultimately show ?thesis using INTO True by (simp add: row col lc)
    next
      case False
      then have "int k = int nz - 1" using k by linarith
      then show ?thesis using INTO False by (simp add: row col lc)
    qed
  next
    case OUT_OF
    show ?thesis
    proof (cases "0 < k")
      case True
      have "grid_index g (int i) (int j) (int k - 1) = Inr (i, j, k - 1)"
        using G[of "int i" "int j" "int k - 1"] i j k True by (simp add: nat_diff_distrib)
      then show ?thesis using OUT_OF True by simp
    next
      case False
      then show ?thesis using OUT_OF by simp
    qed
  qed
qed

section \<open>Geometric neighbours\<close>

lemma neighbour_pos_in_grid:
  "in_grid d p \<Longrightarrow> neighbour_pos ori d p = Some q \<Longrightarrow> in_grid d q"
  by (cases ori; cases d; cases p) (auto split: if_splits)

lemma neighbour_pos_neq:
  "neighbour_pos ori d p = Some q \<Longrightarrow> q \<noteq> p"
  by (cases ori; cases d; cases p) (auto split: if_splits)

lemma neighbour_pos_sym:
  "in_grid d p \<Longrightarrow> in_grid d q \<Longrightarrow>
   (neighbour_pos ori d q = Some p) = (neighbour_pos (reverse ori) d p = Some q)"
  by (cases ori; cases d; cases p; cases q) auto

lemma reverse_reverse [simp]: "reverse (reverse ori) = ori"
  by (cases ori) simp_all

lemma reverse_eq_iff: "(reverse a = b) = (a = reverse b)"
  by (cases a; cases b) simp_all

lemma set_all_orientations [simp]: "set all_orientations = UNIV"
proof -
  have "ori \<in> set all_orientations" for ori
    by (cases ori) (simp_all add: all_orientations_def)
  then show ?thesis by blast
qed

section \<open>Updating one position of a grid\<close>

lemma grid_upd_rect:
  assumes "rect_grid d g" "in_grid d p"
  shows "rect_grid d (grid_upd g p v)"
proof -
  obtain nx ny nz where d: "d = (nx, ny, nz)" by (cases d)
  obtain i j k where p: "p = (i, j, k)" by (cases p)
  note D = rect_gridD[OF assms(1)[unfolded d]]
  have i: "i < nx" and j: "j < ny" and k: "k < nz" using assms(2) by (simp_all add: d p)
  have "rect_grid (nx, ny, nz) (g[i := (g ! i)[j := (g ! i ! j)[k := v]]])"
  proof (rule rect_gridI)
    show "length (g[i := (g ! i)[j := (g ! i ! j)[k := v]]]) = nx" by (simp add: D(1))
  next
    fix i' assume "i' < nx"
    then show "length (g[i := (g ! i)[j := (g ! i ! j)[k := v]]] ! i') = ny"
      using D(1) D(2)[of i'] by (cases "i' = i") simp_all
  next
    fix i' j' assume a: "i' < nx" "j' < ny"
    show "length (g[i := (g ! i)[j := (g ! i ! j)[k := v]]] ! i' ! j') = nz"
    proof (cases "i' = i")
      case True
      then show ?thesis
        using a D(1) D(2)[of i] D(3)[of i j'] by (cases "j' = j") simp_all
    next
      case False
      then show ?thesis using a D(1) D(3)[of i' j'] by simp
    qed
  qed
  then show ?thesis by (simp add: d p)
qed

lemma grid_at_upd:
  assumes "rect_grid d g" "in_grid d p" "in_grid d q"
  shows "grid_at (grid_upd g p v) q = (if q = p then v else grid_at g q)"
proof -
  obtain nx ny nz where d: "d = (nx, ny, nz)" by (cases d)
  obtain i j k where p: "p = (i, j, k)" by (cases p)
  obtain i' j' k' where q: "q = (i', j', k')" by (cases q)
  note D = rect_gridD[OF assms(1)[unfolded d]]
  have i: "i < nx" and j: "j < ny" and k: "k < nz" using assms(2) by (simp_all add: d p)
  have i': "i' < nx" and j': "j' < ny" and k': "k' < nz" using assms(3) by (simp_all add: d q)
  show ?thesis
  proof (cases "i' = i")
    case True
    note ii = this
    show ?thesis
    proof (cases "j' = j")
      case True
      then show ?thesis
        using ii i j k k' D(1) D(2)[of i] D(3)[of i j] by (simp add: p q)
    next
      case False
      then show ?thesis
        using ii i j j' D(1) D(2)[of i] by (simp add: p q)
    qed
  next
    case False
    then show ?thesis using i i' D(1) by (simp add: p q)
  qed
qed

section \<open>The effect of \<open>delete_prism\<close>\<close>

lemma unlink_result:
  assumes "rect_grid d g" "in_grid d (i, j, k)"
  shows "\<exists>g'. unlink g (int i) (int j) (int k) os = Inr g' \<and> rect_grid d g' \<and>
     (\<forall>q. in_grid d q \<longrightarrow>
        prism (grid_at g' q) = prism (grid_at g q) \<and>
        neighbour_map (grid_at g' q) =
          filter (\<lambda>kv. \<forall>ori \<in> set os. neighbour_pos ori d (i, j, k) = Some q \<longrightarrow> fst kv \<noteq> reverse ori)
            (neighbour_map (grid_at g q)))"
  using assms
proof (induction os arbitrary: g)
  case Nil
  then show ?case by simp
next
  case (Cons ori os)
  obtain nx ny nz where d: "d = (nx, ny, nz)" by (cases d)
  have ni: "neighbour_index ori g (int i) (int j) (int k) = Inr (neighbour_pos ori d (i, j, k))"
    using neighbour_index_nat[of nx ny nz g i j k ori] Cons.prems by (simp add: d)
  show ?case
  proof (cases "neighbour_pos ori d (i, j, k)")
    case None
    from Cons.IH[OF Cons.prems] obtain g' where
      g': "unlink g (int i) (int j) (int k) os = Inr g'" "rect_grid d g'"
        "\<forall>q. in_grid d q \<longrightarrow>
          prism (grid_at g' q) = prism (grid_at g q) \<and>
          neighbour_map (grid_at g' q) =
            filter (\<lambda>kv. \<forall>ori \<in> set os. neighbour_pos ori d (i, j, k) = Some q \<longrightarrow> fst kv \<noteq> reverse ori)
              (neighbour_map (grid_at g q))"
      by blast
    show ?thesis
      using g' None by (intro exI[of _ g']) (simp add: ni)
  next
    case (Some nb)
    define g1 where "g1 = grid_upd g nb
       ((grid_at g nb)\<lparr>neighbour_map := dict_pop (reverse ori) (neighbour_map (grid_at g nb))\<rparr>)"
    have nb: "in_grid d nb"
      using neighbour_pos_in_grid[OF Cons.prems(2) Some] .
    have r1: "rect_grid d g1"
      unfolding g1_def by (rule grid_upd_rect[OF Cons.prems(1) nb])
    from Cons.IH[OF r1 Cons.prems(2)] obtain g' where
      g': "unlink g1 (int i) (int j) (int k) os = Inr g'" "rect_grid d g'"
        "\<forall>q. in_grid d q \<longrightarrow>
          prism (grid_at g' q) = prism (grid_at g1 q) \<and>
          neighbour_map (grid_at g' q) =
            filter (\<lambda>kv. \<forall>ori \<in> set os. neighbour_pos ori d (i, j, k) = Some q \<longrightarrow> fst kv \<noteq> reverse ori)
              (neighbour_map (grid_at g1 q))"
      by blast
    have u: "unlink g (int i) (int j) (int k) (ori # os) = Inr g'"
      using g'(1) Some by (simp add: ni g1_def)
    have "prism (grid_at g' q) = prism (grid_at g q) \<and>
        neighbour_map (grid_at g' q) =
          filter (\<lambda>kv. \<forall>o' \<in> set (ori # os). neighbour_pos o' d (i, j, k) = Some q \<longrightarrow> fst kv \<noteq> reverse o')
            (neighbour_map (grid_at g q))" if q: "in_grid d q" for q
    proof -
      have a: "grid_at g1 q = (if q = nb
          then (grid_at g nb)\<lparr>neighbour_map := dict_pop (reverse ori) (neighbour_map (grid_at g nb))\<rparr>
          else grid_at g q)"
        unfolding g1_def by (rule grid_at_upd[OF Cons.prems(1) nb q])
      note h = g'(3)[rule_format, OF q]
      show ?thesis
      proof (cases "q = nb")
        case True
        have "filter (\<lambda>kv. \<forall>o' \<in> set os. neighbour_pos o' d (i, j, k) = Some q \<longrightarrow> fst kv \<noteq> reverse o')
                (dict_pop (reverse ori) (neighbour_map (grid_at g q))) =
              filter (\<lambda>kv. \<forall>o' \<in> set (ori # os). neighbour_pos o' d (i, j, k) = Some q \<longrightarrow> fst kv \<noteq> reverse o')
                (neighbour_map (grid_at g q))"
          using True Some by (auto simp: dict_pop_def intro: filter_cong)
        then show ?thesis
          using h a True by (simp del: grid_at.simps)
      next
        case False
        have "filter (\<lambda>kv. \<forall>o' \<in> set os. neighbour_pos o' d (i, j, k) = Some q \<longrightarrow> fst kv \<noteq> reverse o')
                (neighbour_map (grid_at g q)) =
              filter (\<lambda>kv. \<forall>o' \<in> set (ori # os). neighbour_pos o' d (i, j, k) = Some q \<longrightarrow> fst kv \<noteq> reverse o')
                (neighbour_map (grid_at g q))"
          using False Some by (auto intro: filter_cong)
        then show ?thesis
          using h a False by (simp del: grid_at.simps)
      qed
    qed
    then show ?thesis using u g'(2) by blast
  qed
qed

lemma delete_prism_result:
  assumes "rect_grid d g" "in_grid d (i, j, k)" "prism (grid_at g (i, j, k)) = Some pr"
  shows "\<exists>g'. delete_prism g (int i) (int j) (int k) = Inr (volume pr, g') \<and> rect_grid d g' \<and>
     (\<forall>q. in_grid d q \<longrightarrow>
        prism (grid_at g' q) = (if q = (i, j, k) then None else prism (grid_at g q)) \<and>
        neighbour_map (grid_at g' q) =
          filter (\<lambda>kv. \<forall>ori. neighbour_pos ori d (i, j, k) = Some q \<longrightarrow> fst kv \<noteq> reverse ori)
            (neighbour_map (grid_at g q)))"
proof -
  obtain nx ny nz where d: "d = (nx, ny, nz)" by (cases d)
  define g1 where "g1 = grid_upd g (i, j, k) ((grid_at g (i, j, k))\<lparr>prism := None\<rparr>)"
  have gi: "grid_index g (int i) (int j) (int k) = Inr (i, j, k)"
    using grid_index_nat[of nx ny nz g i j k] assms(1,2) by (simp add: d)
  have r1: "rect_grid d g1"
    unfolding g1_def by (rule grid_upd_rect[OF assms(1,2)])
  have a: "grid_at g1 q = (if q = (i, j, k) then (grid_at g (i, j, k))\<lparr>prism := None\<rparr> else grid_at g q)"
    if "in_grid d q" for q
    unfolding g1_def by (rule grid_at_upd[OF assms(1,2) that])
  from unlink_result[OF r1 assms(2), of all_orientations] obtain g' where
    g': "unlink g1 (int i) (int j) (int k) all_orientations = Inr g'" "rect_grid d g'"
      "\<forall>q. in_grid d q \<longrightarrow>
        prism (grid_at g' q) = prism (grid_at g1 q) \<and>
        neighbour_map (grid_at g' q) =
          filter (\<lambda>kv. \<forall>ori \<in> set all_orientations. neighbour_pos ori d (i, j, k) = Some q \<longrightarrow> fst kv \<noteq> reverse ori)
            (neighbour_map (grid_at g1 q))"
    by blast
  have "delete_prism g (int i) (int j) (int k) = Inr (volume pr, g')"
    using assms(3) g'(1) by (simp add: delete_prism_def gi g1_def Let_def del: grid_at.simps grid_upd.simps)
  moreover have "prism (grid_at g' q) = (if q = (i, j, k) then None else prism (grid_at g q)) \<and>
        neighbour_map (grid_at g' q) =
          filter (\<lambda>kv. \<forall>ori. neighbour_pos ori d (i, j, k) = Some q \<longrightarrow> fst kv \<noteq> reverse ori)
            (neighbour_map (grid_at g q))" if "in_grid d q" for q
    using g'(3)[rule_format, OF that] a[OF that] by (simp del: grid_at.simps)
  ultimately show ?thesis using g'(2) by blast
qed

lemma delete_prism_absent:
  assumes "rect_grid d g" "in_grid d (i, j, k)" "prism (grid_at g (i, j, k)) = None"
  shows "delete_prism g (int i) (int j) (int k) = Inr (0, g)"
proof -
  obtain nx ny nz where d: "d = (nx, ny, nz)" by (cases d)
  have gi: "grid_index g (int i) (int j) (int k) = Inr (i, j, k)"
    using grid_index_nat[of nx ny nz g i j k] assms(1,2) by (simp add: d)
  show ?thesis using assms(3) by (simp add: delete_prism_def gi del: grid_at.simps)
qed

section \<open>Construction\<close>

lemma map_result_Inr:
  "(\<And>x. x \<in> set xs \<Longrightarrow> f x = Inr (h x)) \<Longrightarrow> map_result f xs = Inr (map h xs)"
  by (induction xs) simp_all

lemma length_zip_drop: "length (zip xs (drop 1 xs)) = length xs - 1"
  by simp

lemma nth_zip_drop: "i < length xs - 1 \<Longrightarrow> zip xs (drop 1 xs) ! i = (xs ! i, xs ! (i + 1))"
  by simp

lemma prism_grid_rect: "rect_grid (grid_dims xs ys zs) (prism_grid xs ys zs)"
  unfolding grid_dims_def
  by (rule rect_gridI) (simp_all add: prism_grid_def)

lemma prism_grid_at:
  assumes "in_grid (grid_dims xs ys zs) (i, j, k)"
  shows "grid_at (prism_grid xs ys zs) (i, j, k) =
     \<lparr>vx_000 = (xs ! i, ys ! j, zs ! k), vx_001 = (xs ! i, ys ! j, zs ! (k + 1)),
      vx_010 = (xs ! i, ys ! (j + 1), zs ! k), vx_011 = (xs ! i, ys ! (j + 1), zs ! (k + 1)),
      vx_100 = (xs ! (i + 1), ys ! j, zs ! k), vx_101 = (xs ! (i + 1), ys ! j, zs ! (k + 1)),
      vx_110 = (xs ! (i + 1), ys ! (j + 1), zs ! k),
      vx_111 = (xs ! (i + 1), ys ! (j + 1), zs ! (k + 1))\<rparr>"
proof -
  have i: "i < length xs - 1" and j: "j < length ys - 1" and k: "k < length zs - 1"
    using assms by (simp_all add: grid_dims_def)
  have zx: "zip xs (drop 1 xs) ! i = (xs ! i, xs ! (i + 1))" using i by simp
  have zy: "zip ys (drop 1 ys) ! j = (ys ! j, ys ! (j + 1))" using j by simp
  have zz: "zip zs (drop 1 zs) ! k = (zs ! k, zs ! (k + 1))" using k by simp
  have li: "i < length (zip xs (drop 1 xs))" using i by simp
  have lj: "j < length (zip ys (drop 1 ys))" using j by simp
  have lk: "k < length (zip zs (drop 1 zs))" using k by simp
  show ?thesis
    unfolding prism_grid_def grid_at.simps
    by (simp only: nth_map[OF li] nth_map[OF lj] nth_map[OF lk] zx zy zz prod.case)
qed

lemma get_neighbour_nat:
  assumes "rect_grid d g" "in_grid d (i, j, k)"
  shows "get_neighbour ori g (int i) (int j) (int k) =
     Inr (map_option (grid_at g) (neighbour_pos ori d (i, j, k)))"
proof -
  obtain nx ny nz where d: "d = (nx, ny, nz)" by (cases d)
  show ?thesis
    using neighbour_index_nat[of nx ny nz g i j k ori] assms
    by (simp add: d get_neighbour_def del: grid_at.simps)
qed

lemma neighbour_dict_nat:
  assumes "rect_grid d pg" "in_grid d (i, j, k)"
  shows "neighbour_dict pg (int i) (int j) (int k) os =
     Inr (concat (map (\<lambda>ori. case neighbour_pos ori d (i, j, k) of
                                None \<Rightarrow> []
                              | Some q \<Rightarrow> [(ori, grid_at pg q)]) os))"
proof (induction os)
  case Nil
  show ?case by simp
next
  case (Cons ori os)
  show ?case
    by (cases "neighbour_pos ori d (i, j, k)")
       (simp_all add: get_neighbour_nat[OF assms] Cons.IH del: grid_at.simps)
qed

lemma neighbour_dict_links:
  assumes "rect_grid d pg" "in_grid d p"
  shows "neighbour_dict pg (int (fst p)) (int (fst (snd p))) (int (snd (snd p))) all_orientations =
     Inr (links pg (\<lambda>q. True) d p)"
proof -
  obtain i j k where p: "p = (i, j, k)" by (cases p)
  show ?thesis
    using neighbour_dict_nat[OF assms(1) assms(2)[unfolded p], of all_orientations]
    by (simp add: p links_def cong: option.case_cong del: grid_at.simps)
qed

lemma PrismGraph_init_result:
  "PrismGraph_init xs ys zs =
     Inr (map (\<lambda>i. map (\<lambda>j. map (\<lambda>k.
            \<lparr>prism = Some (grid_at (prism_grid xs ys zs) (i, j, k)),
             neighbour_map = links (prism_grid xs ys zs) (\<lambda>q. True) (grid_dims xs ys zs) (i, j, k)\<rparr>)
          [0 ..< length zs - 1]) [0 ..< length ys - 1]) [0 ..< length xs - 1])"
proof -
  define pg where "pg = prism_grid xs ys zs"
  define nx where "nx = length xs - 1"
  define ny where "ny = length ys - 1"
  define nz where "nz = length zs - 1"
  have r: "rect_grid (nx, ny, nz) pg"
    using prism_grid_rect[of xs ys zs] by (simp add: pg_def nx_def ny_def nz_def grid_dims_def)
  note D = rect_gridD[OF r]
  have node: "bnd (grid_get pg (int i) (int j) (int k)) (\<lambda>p.
        bnd (neighbour_dict pg (int i) (int j) (int k) all_orientations) (\<lambda>dd.
          Inr \<lparr>prism = Some p, neighbour_map = dd\<rparr>)) =
      Inr \<lparr>prism = Some (grid_at pg (i, j, k)),
           neighbour_map = links pg (\<lambda>q. True) (nx, ny, nz) (i, j, k)\<rparr>"
    if "i < nx" "j < ny" "k < nz" for i j k
    using grid_get_nat[OF r that] neighbour_dict_links[OF r, of "(i, j, k)"] that
    by simp
  have col: "map_result (\<lambda>k.
        bnd (grid_get pg (int i) (int j) (int k)) (\<lambda>p.
        bnd (neighbour_dict pg (int i) (int j) (int k) all_orientations) (\<lambda>dd.
          Inr \<lparr>prism = Some p, neighbour_map = dd\<rparr>))) [0 ..< length (pg ! i ! j)] =
      Inr (map (\<lambda>k. \<lparr>prism = Some (grid_at pg (i, j, k)),
           neighbour_map = links pg (\<lambda>q. True) (nx, ny, nz) (i, j, k)\<rparr>) [0 ..< nz])"
    if "i < nx" "j < ny" for i j
    unfolding D(3)[OF that]
    by (rule map_result_Inr) (use that node in simp)
  have row: "map_result (\<lambda>j. map_result (\<lambda>k.
        bnd (grid_get pg (int i) (int j) (int k)) (\<lambda>p.
        bnd (neighbour_dict pg (int i) (int j) (int k) all_orientations) (\<lambda>dd.
          Inr \<lparr>prism = Some p, neighbour_map = dd\<rparr>))) [0 ..< length (pg ! i ! j)])
        [0 ..< length (pg ! i)] =
      Inr (map (\<lambda>j. map (\<lambda>k. \<lparr>prism = Some (grid_at pg (i, j, k)),
           neighbour_map = links pg (\<lambda>q. True) (nx, ny, nz) (i, j, k)\<rparr>) [0 ..< nz]) [0 ..< ny])"
    if "i < nx" for i
    unfolding D(2)[OF that]
    by (rule map_result_Inr) (use that col in simp)
  have "map_result (\<lambda>i. map_result (\<lambda>j. map_result (\<lambda>k.
        bnd (grid_get pg (int i) (int j) (int k)) (\<lambda>p.
        bnd (neighbour_dict pg (int i) (int j) (int k) all_orientations) (\<lambda>dd.
          Inr \<lparr>prism = Some p, neighbour_map = dd\<rparr>))) [0 ..< length (pg ! i ! j)])
        [0 ..< length (pg ! i)]) [0 ..< length pg] =
      Inr (map (\<lambda>i. map (\<lambda>j. map (\<lambda>k. \<lparr>prism = Some (grid_at pg (i, j, k)),
           neighbour_map = links pg (\<lambda>q. True) (nx, ny, nz) (i, j, k)\<rparr>) [0 ..< nz]) [0 ..< ny]) [0 ..< nx])"
    unfolding D(1)
    by (rule map_result_Inr) (use row in simp)
  then show ?thesis
    by (simp add: PrismGraph_init_def Let_def pg_def nx_def ny_def nz_def grid_dims_def
        del: grid_at.simps)
qed

lemma PrismGraph_init_props:
  assumes "PrismGraph_init xs ys zs = Inr g"
  shows "rect_grid (grid_dims xs ys zs) g"
    and "in_grid (grid_dims xs ys zs) p \<Longrightarrow>
         grid_at g p = \<lparr>prism = Some (grid_at (prism_grid xs ys zs) p),
           neighbour_map = links (prism_grid xs ys zs) (\<lambda>q. True) (grid_dims xs ys zs) p\<rparr>"
proof -
  have g: "g = map (\<lambda>i. map (\<lambda>j. map (\<lambda>k.
            \<lparr>prism = Some (grid_at (prism_grid xs ys zs) (i, j, k)),
             neighbour_map = links (prism_grid xs ys zs) (\<lambda>q. True) (grid_dims xs ys zs) (i, j, k)\<rparr>)
          [0 ..< length zs - 1]) [0 ..< length ys - 1]) [0 ..< length xs - 1]"
    using assms unfolding PrismGraph_init_result by simp
  show "rect_grid (grid_dims xs ys zs) g"
    unfolding grid_dims_def by (rule rect_gridI) (simp_all add: g)
  show "grid_at g p = \<lparr>prism = Some (grid_at (prism_grid xs ys zs) p),
           neighbour_map = links (prism_grid xs ys zs) (\<lambda>q. True) (grid_dims xs ys zs) p\<rparr>"
    if "in_grid (grid_dims xs ys zs) p"
  proof -
    obtain i j k where p: "p = (i, j, k)" by (cases p)
    have "i < length xs - 1" "j < length ys - 1" "k < length zs - 1"
      using that by (simp_all add: p grid_dims_def)
    then have "g ! i ! j ! k = \<lparr>prism = Some (grid_at (prism_grid xs ys zs) (i, j, k)),
           neighbour_map = links (prism_grid xs ys zs) (\<lambda>q. True) (grid_dims xs ys zs) (i, j, k)\<rparr>"
      unfolding g by simp
    then show ?thesis by (simp add: p)
  qed
qed

section \<open>The link invariant\<close>

lemma links_cong:
  assumes "\<And>ori q. neighbour_pos ori d p = Some q \<Longrightarrow> live q = live' q"
  shows "links pg live d p = links pg live' d p"
proof -
  have "(case neighbour_pos ori d p of None \<Rightarrow> []
          | Some q \<Rightarrow> if live q then [(ori, grid_at pg q)] else []) =
        (case neighbour_pos ori d p of None \<Rightarrow> []
          | Some q \<Rightarrow> if live' q then [(ori, grid_at pg q)] else [])" for ori
    using assms[of ori] by (cases "neighbour_pos ori d p") simp_all
  then show ?thesis by (simp add: links_def del: grid_at.simps)
qed

lemma filter_links:
  assumes "\<And>ori q. neighbour_pos ori d p = Some q \<Longrightarrow>
             live' q = (live q \<and> P (ori, grid_at pg q))"
  shows "filter P (links pg live d p) = links pg live' d p"
proof -
  have "filter P (case neighbour_pos ori d p of None \<Rightarrow> []
          | Some q \<Rightarrow> if live q then [(ori, grid_at pg q)] else []) =
        (case neighbour_pos ori d p of None \<Rightarrow> []
          | Some q \<Rightarrow> if live' q then [(ori, grid_at pg q)] else [])" for ori
    using assms[of ori] by (cases "neighbour_pos ori d p") (simp_all del: grid_at.simps)
  then show ?thesis
    by (simp add: links_def filter_concat comp_def del: grid_at.simps)
qed

lemma map_of_links_aux:
  "distinct os \<Longrightarrow>
   map_of (concat (map (\<lambda>ori. case f ori of None \<Rightarrow> [] | Some v \<Rightarrow> [(ori, v)]) os)) ori =
     (if ori \<in> set os then f ori else None)"
proof (induction os)
  case Nil
  show ?case by simp
next
  case (Cons a os)
  then show ?case by (cases "f a") auto
qed

lemma distinct_all_orientations: "distinct all_orientations"
  by (simp add: all_orientations_def)

lemma map_of_links:
  "map_of (links pg live d p) ori =
     (case neighbour_pos ori d p of
        None \<Rightarrow> None
      | Some q \<Rightarrow> if live q then Some (grid_at pg q) else None)"
proof -
  have e: "(case neighbour_pos ori d p of None \<Rightarrow> []
          | Some q \<Rightarrow> if live q then [(ori, grid_at pg q)] else []) =
        (case (case neighbour_pos ori d p of None \<Rightarrow> None
                | Some q \<Rightarrow> if live q then Some (grid_at pg q) else None) of
           None \<Rightarrow> [] | Some v \<Rightarrow> [(ori, v)])" for ori
    by (cases "neighbour_pos ori d p") simp_all
  show ?thesis
    unfolding links_def e
    by (simp add: map_of_links_aux[OF distinct_all_orientations] del: grid_at.simps)
qed

lemma neighbour_pos_inj:
  "neighbour_pos ori d p = Some q \<Longrightarrow> neighbour_pos ori' d p = Some q \<Longrightarrow> ori = ori'"
  by (cases ori; cases ori'; cases d; cases p) (auto split: if_splits)

lemma consistent_init:
  assumes "PrismGraph_init xs ys zs = Inr g"
  shows "consistent xs ys zs g"
proof -
  note P = PrismGraph_init_props[OF assms]
  have "neighbour_map (grid_at g p) =
      links (prism_grid xs ys zs) (present g) (grid_dims xs ys zs) p"
    if p: "in_grid (grid_dims xs ys zs) p" for p
  proof -
    have "links (prism_grid xs ys zs) (\<lambda>q. True) (grid_dims xs ys zs) p =
        links (prism_grid xs ys zs) (present g) (grid_dims xs ys zs) p"
    proof (rule links_cong)
      fix ori q assume "neighbour_pos ori (grid_dims xs ys zs) p = Some q"
      then have "in_grid (grid_dims xs ys zs) q" using neighbour_pos_in_grid[OF p] by simp
      then show "True = present g q" by (simp add: present_def P(2) del: grid_at.simps)
    qed
    then show ?thesis by (simp add: P(2)[OF p])
  qed
  then show ?thesis
    using P by (simp add: consistent_def del: grid_at.simps)
qed

lemma consistent_delete:
  assumes c: "consistent xs ys zs g"
    and p: "in_grid (grid_dims xs ys zs) (i, j, k)"
    and del: "delete_prism g (int i) (int j) (int k) = Inr (v, g')"
  shows "consistent xs ys zs g'"
proof (cases "prism (grid_at g (i, j, k))")
  case None
  have "rect_grid (grid_dims xs ys zs) g" using c by (simp add: consistent_def)
  from delete_prism_absent[OF this p None] del c show ?thesis by simp
next
  case (Some pr)
  define d where "d = grid_dims xs ys zs"
  define pg where "pg = prism_grid xs ys zs"
  have r: "rect_grid d g" using c by (simp add: consistent_def d_def)
  have cp: "prism (grid_at g q) = None \<or> prism (grid_at g q) = Some (grid_at pg q)"
    and cl: "neighbour_map (grid_at g q) = links pg (present g) d q"
    if "in_grid d q" for q
    using c that unfolding consistent_def d_def pg_def by blast+
  from delete_prism_result[OF r p[folded d_def] Some] del obtain
    r': "rect_grid d g'"
    and pr': "\<And>q. in_grid d q \<Longrightarrow>
        prism (grid_at g' q) = (if q = (i, j, k) then None else prism (grid_at g q))"
    and nm': "\<And>q. in_grid d q \<Longrightarrow> neighbour_map (grid_at g' q) =
          filter (\<lambda>kv. \<forall>ori. neighbour_pos ori d (i, j, k) = Some q \<longrightarrow> fst kv \<noteq> reverse ori)
            (neighbour_map (grid_at g q))"
    by auto
  have "neighbour_map (grid_at g' q) = links pg (present g') d q" if q: "in_grid d q" for q
  proof -
    have "filter (\<lambda>kv. \<forall>ori. neighbour_pos ori d (i, j, k) = Some q \<longrightarrow> fst kv \<noteq> reverse ori)
            (links pg (present g) d q) = links pg (present g') d q"
    proof (rule filter_links)
      fix ori q' assume n: "neighbour_pos ori d q = Some q'"
      have q': "in_grid d q'" using neighbour_pos_in_grid[OF q n] .
      have s: "(neighbour_pos ori d q = Some (i, j, k)) =
               (neighbour_pos (reverse ori) d (i, j, k) = Some q)"
        by (rule neighbour_pos_sym[OF p[folded d_def] q])
      have "(q' \<noteq> (i, j, k)) =
            (\<forall>o2. neighbour_pos o2 d (i, j, k) = Some q \<longrightarrow> ori \<noteq> reverse o2)"
      proof
        assume ne: "q' \<noteq> (i, j, k)"
        show "\<forall>o2. neighbour_pos o2 d (i, j, k) = Some q \<longrightarrow> ori \<noteq> reverse o2"
        proof (intro allI impI notI)
          fix o2 assume "neighbour_pos o2 d (i, j, k) = Some q" "ori = reverse o2"
          then have "neighbour_pos (reverse ori) d (i, j, k) = Some q" by simp
          then have "neighbour_pos ori d q = Some (i, j, k)" using s by simp
          then show False using n ne by simp
        qed
      next
        assume a: "\<forall>o2. neighbour_pos o2 d (i, j, k) = Some q \<longrightarrow> ori \<noteq> reverse o2"
        show "q' \<noteq> (i, j, k)"
        proof
          assume "q' = (i, j, k)"
          then have "neighbour_pos (reverse ori) d (i, j, k) = Some q" using n s by simp
          then have "ori \<noteq> reverse (reverse ori)" using a by blast
          then show False by simp
        qed
      qed
      then show "present g' q' =
          (present g q' \<and>
           (\<forall>ori'. neighbour_pos ori' d (i, j, k) = Some q \<longrightarrow>
              fst (ori, grid_at pg q') \<noteq> reverse ori'))"
        using pr'[OF q'] by (auto simp: present_def simp del: grid_at.simps)
    qed
    then show ?thesis using nm'[OF q] cl[OF q] by simp
  qed
  moreover have "prism (grid_at g' q) = None \<or> prism (grid_at g' q) = Some (grid_at pg q)"
    if "in_grid d q" for q
    using pr'[OF that] cp[OF that] by simp
  ultimately show ?thesis
    using r' by (simp add: consistent_def d_def pg_def del: grid_at.simps)
qed

lemma in_dims_nat:
  assumes "in_dims d pt"
  obtains i j k where "pt = (int i, int j, int k)" "in_grid d (i, j, k)"
proof -
  obtain nx ny nz where d: "d = (nx, ny, nz)" by (cases d)
  obtain x y z where pt: "pt = (x, y, z)" by (cases pt)
  have "pt = (int (nat x), int (nat y), int (nat z))" "in_grid d (nat x, nat y, nat z)"
    using assms by (simp_all add: d pt nat_less_iff)
  then show ?thesis using that by blast
qed

lemma delete_prism_total:
  assumes "rect_grid d g" "in_grid d (i, j, k)"
  shows "\<exists>v g'. delete_prism g (int i) (int j) (int k) = Inr (v, g')"
proof (cases "prism (grid_at g (i, j, k))")
  case None
  from delete_prism_absent[OF assms None] show ?thesis by blast
next
  case (Some pr)
  from delete_prism_result[OF assms Some] show ?thesis by blast
qed

lemma delete_all_consistent:
  assumes "consistent xs ys zs g" "\<forall>pt \<in> set ps. in_dims (grid_dims xs ys zs) pt"
  shows "\<exists>vs g'. delete_all g ps = Inr (vs, g') \<and> consistent xs ys zs g'"
  using assms
proof (induction ps arbitrary: g)
  case Nil
  then show ?case by simp
next
  case (Cons pt ps)
  from Cons.prems(2) have "in_dims (grid_dims xs ys zs) pt" by simp
  then obtain i j k where pt: "pt = (int i, int j, int k)"
    and p: "in_grid (grid_dims xs ys zs) (i, j, k)"
    by (rule in_dims_nat)
  have r: "rect_grid (grid_dims xs ys zs) g" using Cons.prems(1) by (simp add: consistent_def)
  from delete_prism_total[OF r p] obtain v g1 where
    d1: "delete_prism g (int i) (int j) (int k) = Inr (v, g1)" by blast
  have c1: "consistent xs ys zs g1" by (rule consistent_delete[OF Cons.prems(1) p d1])
  from Cons.IH[OF c1] Cons.prems(2) obtain vs g' where
    "delete_all g1 ps = Inr (vs, g')" "consistent xs ys zs g'" by auto
  then show ?case using d1 by (simp add: pt)
qed

lemma delete_all_consistent_Inr:
  assumes "consistent xs ys zs g" "\<forall>pt \<in> set ps. in_dims (grid_dims xs ys zs) pt"
    and "delete_all g ps = Inr (vs, g')"
  shows "consistent xs ys zs g'"
  using delete_all_consistent[OF assms(1,2)] assms(3) by auto

section \<open>Mesh extraction\<close>

lemma triangle_slice_values:
  "triangle_slice pr (Some (map (\<lambda>kv. VPrism (snd kv)) m)) = concat (map faces (rectangles pr))"
proof -
  have "filter (\<lambda>r. VOrientation (orientation r) \<notin> set (map (\<lambda>kv. VPrism (snd kv)) m))
      (rectangles pr) = rectangles pr"
    by (rule filter_True) auto
  then show ?thesis
    by (cases m) (simp_all add: triangle_slice_def)
qed

lemma length_all_faces: "length (concat (map faces (rectangles pr))) = 12"
  by (simp add: rectangles_def faces_def)

lemma triangle_slice_None: "triangle_slice pr None = concat (map faces (rectangles pr))"
  by (simp add: triangle_slice_def)

lemma all_faces_explicit:
  "concat (map faces (rectangles pr)) =
     [[vx_000 pr, vx_001 pr, vx_011 pr], [vx_000 pr, vx_011 pr, vx_010 pr],
      [vx_100 pr, vx_111 pr, vx_101 pr], [vx_100 pr, vx_110 pr, vx_111 pr],
      [vx_001 pr, vx_111 pr, vx_011 pr], [vx_001 pr, vx_101 pr, vx_111 pr],
      [vx_000 pr, vx_010 pr, vx_110 pr], [vx_000 pr, vx_110 pr, vx_100 pr],
      [vx_010 pr, vx_011 pr, vx_111 pr], [vx_010 pr, vx_111 pr, vx_110 pr],
      [vx_000 pr, vx_101 pr, vx_001 pr], [vx_000 pr, vx_100 pr, vx_101 pr]]"
  by (simp add: rectangles_def faces_def)

lemma concat_map_concat:
  "concat (map (\<lambda>xs. concat (map f xs)) xss) = concat (map f (concat xss))"
  by (induction xss) simp_all

lemma concat_map_concat_concat:
  "concat (map (\<lambda>xss. concat (map f (concat xss))) xsss) = concat (map f (concat (concat xsss)))"
  by (induction xsss) simp_all

lemma to_mesh_nodes:
  "to_mesh g =
     concat (map (\<lambda>node. case prism node of
                             None \<Rightarrow> []
                           | Some pr \<Rightarrow> triangle_slice pr None)
                 (concat (concat g)))"
proof -
  have n: "(case prism node of
              None \<Rightarrow> []
            | Some pr \<Rightarrow> triangle_slice pr (Some (map (\<lambda>kv. VPrism (snd kv)) (neighbour_map node)))) =
           (case prism node of None \<Rightarrow> [] | Some pr \<Rightarrow> triangle_slice pr None)" for node
    by (cases "prism node") (simp_all add: triangle_slice_values triangle_slice_None)
  show ?thesis
    unfolding to_mesh_def n by (simp only: concat_map_concat concat_map_concat_concat)
qed

lemma length_node_faces:
  "length (concat (map (\<lambda>node. case prism node of
                                   None \<Rightarrow> []
                                 | Some pr \<Rightarrow> triangle_slice pr None) ns)) =
   12 * length (filter (\<lambda>n. prism n \<noteq> None) ns)"
proof (induction ns)
  case Nil
  show ?case by simp
next
  case (Cons n ns)
  then show ?case
    by (cases "prism n") (simp_all add: triangle_slice_None length_all_faces)
qed

text \<open>
  C10. \<open>to_mesh\<close> passes the values of the dictionary, which are prisms, as the
  suppression argument. No orientation equals a prism, so no face is suppressed: for
  any prism and any dictionary, the face enumeration called by \<open>to_mesh\<close> returns what
  it returns with no suppression at all, namely the two triangles of each of the six
  faces, in the order \<open>LEFT\<close>, \<open>RIGHT\<close>, \<open>UP\<close>, \<open>DOWN\<close>, \<open>INTO\<close>, \<open>OUT_OF\<close>. In every graph
  state the output of \<open>to_mesh\<close> is the concatenation, in traversal order, of these 12
  triangles for each node whose prism is present, and of nothing for the other nodes;
  so its length is 12 times the number of present prisms.
\<close>

theorem to_mesh_all_faces:
  "triangle_slice pr (Some (map (\<lambda>kv. VPrism (snd kv)) m)) = triangle_slice pr None \<and>
   triangle_slice pr None =
     [[vx_000 pr, vx_001 pr, vx_011 pr], [vx_000 pr, vx_011 pr, vx_010 pr],
      [vx_100 pr, vx_111 pr, vx_101 pr], [vx_100 pr, vx_110 pr, vx_111 pr],
      [vx_001 pr, vx_111 pr, vx_011 pr], [vx_001 pr, vx_101 pr, vx_111 pr],
      [vx_000 pr, vx_010 pr, vx_110 pr], [vx_000 pr, vx_110 pr, vx_100 pr],
      [vx_010 pr, vx_011 pr, vx_111 pr], [vx_010 pr, vx_111 pr, vx_110 pr],
      [vx_000 pr, vx_101 pr, vx_001 pr], [vx_000 pr, vx_100 pr, vx_101 pr]] \<and>
   to_mesh g =
     concat (map (\<lambda>node. case prism node of
                             None \<Rightarrow> []
                           | Some pr \<Rightarrow> triangle_slice pr None)
                 (concat (concat g))) \<and>
   length (to_mesh g) = 12 * length (filter (\<lambda>n. prism n \<noteq> None) (concat (concat g)))"
proof (intro conjI)
  show "triangle_slice pr (Some (map (\<lambda>kv. VPrism (snd kv)) m)) = triangle_slice pr None"
    by (simp only: triangle_slice_values triangle_slice_None)
  show "triangle_slice pr None =
     [[vx_000 pr, vx_001 pr, vx_011 pr], [vx_000 pr, vx_011 pr, vx_010 pr],
      [vx_100 pr, vx_111 pr, vx_101 pr], [vx_100 pr, vx_110 pr, vx_111 pr],
      [vx_001 pr, vx_111 pr, vx_011 pr], [vx_001 pr, vx_101 pr, vx_111 pr],
      [vx_000 pr, vx_010 pr, vx_110 pr], [vx_000 pr, vx_110 pr, vx_100 pr],
      [vx_010 pr, vx_011 pr, vx_111 pr], [vx_010 pr, vx_111 pr, vx_110 pr],
      [vx_000 pr, vx_101 pr, vx_001 pr], [vx_000 pr, vx_100 pr, vx_101 pr]]"
    by (simp only: triangle_slice_None all_faces_explicit)
  show "to_mesh g =
     concat (map (\<lambda>node. case prism node of
                             None \<Rightarrow> []
                           | Some pr \<Rightarrow> triangle_slice pr None)
                 (concat (concat g)))"
    by (rule to_mesh_nodes)
  show "length (to_mesh g) = 12 * length (filter (\<lambda>n. prism n \<noteq> None) (concat (concat g)))"
    unfolding to_mesh_nodes by (rule length_node_faces)
qed

text \<open>
  On the graph of two cubes, both present and linked to each other, the mesh is the 12
  triangles of the first cube followed by the 12 of the second.
\<close>

theorem to_mesh_all_faces_witness:
  "triangle_slice cube_0 (Some (map (\<lambda>kv. VPrism (snd kv)) [(RIGHT, cube_1)])) =
     [[(0, 0, 0), (0, 0, 1), (0, 1, 1)], [(0, 0, 0), (0, 1, 1), (0, 1, 0)],
      [(1, 0, 0), (1, 1, 1), (1, 0, 1)], [(1, 0, 0), (1, 1, 0), (1, 1, 1)],
      [(0, 0, 1), (1, 1, 1), (0, 1, 1)], [(0, 0, 1), (1, 0, 1), (1, 1, 1)],
      [(0, 0, 0), (0, 1, 0), (1, 1, 0)], [(0, 0, 0), (1, 1, 0), (1, 0, 0)],
      [(0, 1, 0), (0, 1, 1), (1, 1, 1)], [(0, 1, 0), (1, 1, 1), (1, 1, 0)],
      [(0, 0, 0), (1, 0, 1), (0, 0, 1)], [(0, 0, 0), (1, 0, 0), (1, 0, 1)]] \<and>
   to_mesh two_cubes = triangle_slice cube_0 None @ triangle_slice cube_1 None \<and>
   length (to_mesh two_cubes) = 24"
proof -
  note t = to_mesh_all_faces[of cube_0 "[(RIGHT, cube_1)]" two_cubes]
  have 1: "triangle_slice cube_0 (Some (map (\<lambda>kv. VPrism (snd kv)) [(RIGHT, cube_1)])) =
     [[(0, 0, 0), (0, 0, 1), (0, 1, 1)], [(0, 0, 0), (0, 1, 1), (0, 1, 0)],
      [(1, 0, 0), (1, 1, 1), (1, 0, 1)], [(1, 0, 0), (1, 1, 0), (1, 1, 1)],
      [(0, 0, 1), (1, 1, 1), (0, 1, 1)], [(0, 0, 1), (1, 0, 1), (1, 1, 1)],
      [(0, 0, 0), (0, 1, 0), (1, 1, 0)], [(0, 0, 0), (1, 1, 0), (1, 0, 0)],
      [(0, 1, 0), (0, 1, 1), (1, 1, 1)], [(0, 1, 0), (1, 1, 1), (1, 1, 0)],
      [(0, 0, 0), (1, 0, 1), (0, 0, 1)], [(0, 0, 0), (1, 0, 0), (1, 0, 1)]]"
    using t by (simp add: cube_0_def)
  have 2: "to_mesh two_cubes = triangle_slice cube_0 None @ triangle_slice cube_1 None"
    using t by (simp add: two_cubes_def)
  have 3: "length (to_mesh two_cubes) = 24"
    using t by (simp add: two_cubes_def triangle_slice_None length_all_faces)
  show ?thesis using 1 2 3 by blast
qed

section \<open>Deleting an absent prism\<close>

text \<open>
  C8. When the indices of a call of \<open>delete_prism\<close> denote a node whose prism is absent,
  the call returns 0 and the graph is the same afterwards, so a second call returns 0
  again.
\<close>

theorem absent_delete_is_noop:
  assumes "grid_index g x y z = Inr p" and "prism (grid_at g p) = None"
  shows "delete_prism g x y z = Inr (0, g) \<and>
         delete_all g [(x, y, z), (x, y, z)] = Inr ([0, 0], g)"
  using assms by (simp add: delete_prism_def del: grid_at.simps)

theorem absent_delete_is_noop_witness:
  "grid_index [[[\<lparr>prism = None, neighbour_map = []\<rparr>]]] 0 0 0 = Inr (0, 0, 0) \<and>
   prism (grid_at [[[\<lparr>prism = None, neighbour_map = []\<rparr>]]] (0, 0, 0)) = None \<and>
   delete_prism [[[\<lparr>prism = None, neighbour_map = []\<rparr>]]] 0 0 0 =
     Inr (0, [[[\<lparr>prism = None, neighbour_map = []\<rparr>]]]) \<and>
   delete_all [[[\<lparr>prism = None, neighbour_map = []\<rparr>]]] [(0, 0, 0), (0, 0, 0)] =
     Inr ([0, 0], [[[\<lparr>prism = None, neighbour_map = []\<rparr>]]])"
proof -
  have h1: "grid_index [[[\<lparr>prism = None, neighbour_map = []\<rparr>]]] 0 0 0 = Inr (0, 0, 0)"
    by (simp add: grid_index_def py_index_def)
  have h2: "prism (grid_at [[[\<lparr>prism = None, neighbour_map = []\<rparr>]]] (0, 0, 0)) = None"
    by simp
  show ?thesis
    using absent_delete_is_noop[OF h1 h2] h1 h2 by simp
qed

section \<open>The small graph\<close>

lemma two_cubes_init: "PrismGraph_init [0, 1, 2] [0, 1] [0, 1] = Inr two_cubes"
  by code_simp

lemma two_cubes_delete_1: "delete_prism two_cubes 1 0 0 = Inr (1, two_cubes_del_1)"
  by code_simp

lemma two_cubes_delete_0: "delete_prism two_cubes_del_1 0 0 0 = Inr (1, two_cubes_del_both)"
  by code_simp

lemma two_cubes_dims: "grid_dims [0, 1, 2 :: real] [0, 1 :: real] [0, 1 :: real] = (2, 1, 1)"
  by (simp add: grid_dims_def)

section \<open>Construction: the claims\<close>

text \<open>
  C9. Construction returns a node array of dimensions
  \<open>(Nx - 1) \<times> (Ny - 1) \<times> (Nz - 1)\<close>; the prism of the node at \<open>(i, j, k)\<close> has the eight
  corners \<open>(x_grid[i + a], y_grid[j + b], z_grid[k + c])\<close>, and the dictionary of the node
  has an entry for an orientation exactly when the position has a geometric neighbour
  in that orientation; the entry is the prism of that neighbour. This holds for all
  sequences, so also for strictly increasing ones with at least two points.
\<close>

theorem PrismGraph_init_nodes:
  assumes "in_grid (length xs - 1, length ys - 1, length zs - 1) (i, j, k)"
  shows "\<exists>g. PrismGraph_init xs ys zs = Inr g \<and>
     rect_grid (length xs - 1, length ys - 1, length zs - 1) g \<and>
     prism (grid_at g (i, j, k)) =
       Some \<lparr>vx_000 = (xs ! i, ys ! j, zs ! k), vx_001 = (xs ! i, ys ! j, zs ! (k + 1)),
             vx_010 = (xs ! i, ys ! (j + 1), zs ! k), vx_011 = (xs ! i, ys ! (j + 1), zs ! (k + 1)),
             vx_100 = (xs ! (i + 1), ys ! j, zs ! k), vx_101 = (xs ! (i + 1), ys ! j, zs ! (k + 1)),
             vx_110 = (xs ! (i + 1), ys ! (j + 1), zs ! k),
             vx_111 = (xs ! (i + 1), ys ! (j + 1), zs ! (k + 1))\<rparr> \<and>
     (\<forall>ori. (ori \<in> fst ` set (neighbour_map (grid_at g (i, j, k)))) =
            (neighbour_pos ori (length xs - 1, length ys - 1, length zs - 1) (i, j, k) \<noteq> None)) \<and>
     (\<forall>ori q. neighbour_pos ori (length xs - 1, length ys - 1, length zs - 1) (i, j, k) = Some q \<longrightarrow>
            map_of (neighbour_map (grid_at g (i, j, k))) ori = prism (grid_at g q))"
proof -
  define d where "d = grid_dims xs ys zs"
  define pg where "pg = prism_grid xs ys zs"
  have d: "(length xs - 1, length ys - 1, length zs - 1) = d"
    by (simp add: d_def grid_dims_def)
  have p: "in_grid d (i, j, k)" using assms unfolding d .
  obtain g where g: "PrismGraph_init xs ys zs = Inr g"
    using PrismGraph_init_result[of xs ys zs] by blast
  note P = PrismGraph_init_props[OF g, folded d_def pg_def]
  have node: "grid_at g (i, j, k) =
      \<lparr>prism = Some (grid_at pg (i, j, k)), neighbour_map = links pg (\<lambda>q. True) d (i, j, k)\<rparr>"
    by (rule P(2)[OF p])
  have m: "map_of (neighbour_map (grid_at g (i, j, k))) ori =
      (case neighbour_pos ori d (i, j, k) of None \<Rightarrow> None | Some q \<Rightarrow> Some (grid_at pg q))" for ori
    unfolding node by (simp add: map_of_links cong: option.case_cong del: grid_at.simps)
  have 1: "prism (grid_at g (i, j, k)) =
       Some \<lparr>vx_000 = (xs ! i, ys ! j, zs ! k), vx_001 = (xs ! i, ys ! j, zs ! (k + 1)),
             vx_010 = (xs ! i, ys ! (j + 1), zs ! k), vx_011 = (xs ! i, ys ! (j + 1), zs ! (k + 1)),
             vx_100 = (xs ! (i + 1), ys ! j, zs ! k), vx_101 = (xs ! (i + 1), ys ! j, zs ! (k + 1)),
             vx_110 = (xs ! (i + 1), ys ! (j + 1), zs ! k),
             vx_111 = (xs ! (i + 1), ys ! (j + 1), zs ! (k + 1))\<rparr>"
    unfolding node pg_def using prism_grid_at[OF p[unfolded d_def]] by simp
  have 2: "(ori \<in> fst ` set (neighbour_map (grid_at g (i, j, k)))) =
            (neighbour_pos ori d (i, j, k) \<noteq> None)" for ori
  proof -
    have "(ori \<in> fst ` set (neighbour_map (grid_at g (i, j, k)))) =
          (map_of (neighbour_map (grid_at g (i, j, k))) ori \<noteq> None)"
      by (simp add: map_of_eq_None_iff del: grid_at.simps)
    then show ?thesis
      unfolding m by (cases "neighbour_pos ori d (i, j, k)") simp_all
  qed
  have 3: "map_of (neighbour_map (grid_at g (i, j, k))) ori = prism (grid_at g q)"
    if n: "neighbour_pos ori d (i, j, k) = Some q" for ori q
  proof -
    have "in_grid d q" using neighbour_pos_in_grid[OF p n] .
    then have "prism (grid_at g q) = Some (grid_at pg q)" by (simp add: P(2))
    then show ?thesis using n by (simp add: m del: grid_at.simps)
  qed
  show ?thesis
    unfolding d using g P(1) 1 2 3 by blast
qed

theorem PrismGraph_init_nodes_witness:
  "in_grid (length [0, 1, 2 :: real] - 1, length [0, 1 :: real] - 1, length [0, 1 :: real] - 1) (0, 0, 0) \<and>
   PrismGraph_init [0, 1, 2] [0, 1] [0, 1] = Inr two_cubes \<and>
   rect_grid (length [0, 1, 2 :: real] - 1, length [0, 1 :: real] - 1, length [0, 1 :: real] - 1) two_cubes \<and>
   prism (grid_at two_cubes (0, 0, 0)) = Some cube_0 \<and>
   (RIGHT \<in> fst ` set (neighbour_map (grid_at two_cubes (0, 0, 0)))) =
     (neighbour_pos RIGHT (length [0, 1, 2 :: real] - 1, length [0, 1 :: real] - 1, length [0, 1 :: real] - 1)
        (0, 0, 0) \<noteq> None) \<and>
   (LEFT \<in> fst ` set (neighbour_map (grid_at two_cubes (0, 0, 0)))) =
     (neighbour_pos LEFT (length [0, 1, 2 :: real] - 1, length [0, 1 :: real] - 1, length [0, 1 :: real] - 1)
        (0, 0, 0) \<noteq> None)"
proof -
  have h: "in_grid (length [0, 1, 2 :: real] - 1, length [0, 1 :: real] - 1, length [0, 1 :: real] - 1) (0, 0, 0)"
    by simp
  from PrismGraph_init_nodes[OF h] obtain g where
    g: "PrismGraph_init [0, 1, 2] [0, 1] [0, 1] = Inr g"
    and r: "rect_grid (length [0, 1, 2 :: real] - 1, length [0, 1 :: real] - 1, length [0, 1 :: real] - 1) g"
    and d: "\<forall>ori. (ori \<in> fst ` set (neighbour_map (grid_at g (0, 0, 0)))) =
       (neighbour_pos ori (length [0, 1, 2 :: real] - 1, length [0, 1 :: real] - 1, length [0, 1 :: real] - 1)
          (0, 0, 0) \<noteq> None)"
    by blast
  have e: "g = two_cubes" using g by (simp add: two_cubes_init)
  have c: "prism (grid_at two_cubes (0, 0, 0)) = Some cube_0"
    by (simp add: two_cubes_def)
  show ?thesis
    using h r d c unfolding e by (simp only: two_cubes_init simp_thms)
qed

text \<open>
  C4 (as amended). Construction validates nothing and raises no error: for all three
  sequences it returns a node array of dimensions \<open>(Nx - 1) \<times> (Ny - 1) \<times> (Nz - 1)\<close>, the
  subtraction stopping at 0. A sequence with fewer than two points gives an empty axis;
  a sequence that is not strictly increasing gives prisms of zero or negative extent.
\<close>

theorem PrismGraph_init_total:
  "\<exists>g. PrismGraph_init xs ys zs = Inr g \<and>
       rect_grid (length xs - 1, length ys - 1, length zs - 1) g"
proof -
  obtain g where g: "PrismGraph_init xs ys zs = Inr g"
    using PrismGraph_init_result[of xs ys zs] by blast
  from PrismGraph_init_props(1)[OF g] show ?thesis
    using g by (simp add: grid_dims_def)
qed

theorem PrismGraph_init_total_witness:
  "PrismGraph_init [0, 1, 2] [0, 1] [0, 1] = Inr two_cubes \<and>
   rect_grid (length [0, 1, 2 :: real] - 1, length [0, 1 :: real] - 1, length [0, 1 :: real] - 1) two_cubes"
  using PrismGraph_init_total[of "[0, 1, 2]" "[0, 1]" "[0, 1]"]
  by (simp add: two_cubes_init)

text \<open>
  The claim as stated fails: a sequence of one point and a decreasing sequence are
  both accepted. The second graph holds a prism of volume \<open>-1\<close>.
\<close>

theorem PrismGraph_init_degenerate_counterexample:
  "length [0 :: real] < 2 \<and>
   PrismGraph_init [0] [0, 1] [0, 1] = Inr [] \<and>
   \<not> sorted_wrt (<) [1, 0 :: real] \<and>
   PrismGraph_init [1, 0] [0, 1] [0, 1] =
     Inr [[[\<lparr>prism = Some \<lparr>vx_000 = (1, 0, 0), vx_001 = (1, 0, 1), vx_010 = (1, 1, 0),
                            vx_011 = (1, 1, 1), vx_100 = (0, 0, 0), vx_101 = (0, 0, 1),
                            vx_110 = (0, 1, 0), vx_111 = (0, 1, 1)\<rparr>,
             neighbour_map = []\<rparr>]]] \<and>
   volume \<lparr>vx_000 = (1, 0, 0), vx_001 = (1, 0, 1), vx_010 = (1, 1, 0),
           vx_011 = (1, 1, 1), vx_100 = (0, 0, 0), vx_101 = (0, 0, 1),
           vx_110 = (0, 1, 0), vx_111 = (0, 1, 1)\<rparr> = - 1"
  by code_simp

section \<open>Directional consistency of the links\<close>

text \<open>
  C7. Take the graph built from any three sequences, after any sequence of calls of
  \<open>delete_prism\<close> with indices inside the grid, and two geometrically adjacent positions
  \<open>a\<close> and \<open>b\<close>, \<open>b\<close> the neighbour of \<open>a\<close> in orientation \<open>ori\<close>. If both prisms are present,
  the dictionary of \<open>a\<close> has an entry for \<open>ori\<close>, which is the prism of \<open>b\<close>, and
  the dictionary of \<open>b\<close> has an entry for the reverse orientation, which is the prism of
  \<open>a\<close>. If the prism of \<open>b\<close> has been deleted, the dictionary of \<open>a\<close> has no entry for \<open>ori\<close>
  (whether the prism of \<open>a\<close> is present or not).
\<close>

theorem link_consistency:
  assumes "PrismGraph_init xs ys zs = Inr g0"
    and "\<forall>pt \<in> set ps. in_dims (grid_dims xs ys zs) pt"
    and "delete_all g0 ps = Inr (vs, g)"
    and "in_grid (grid_dims xs ys zs) a"
    and "neighbour_pos ori (grid_dims xs ys zs) a = Some b"
  shows "(prism (grid_at g a) \<noteq> None \<and> prism (grid_at g b) \<noteq> None \<longrightarrow>
            map_of (neighbour_map (grid_at g a)) ori = prism (grid_at g b) \<and>
            map_of (neighbour_map (grid_at g b)) (reverse ori) = prism (grid_at g a)) \<and>
         (prism (grid_at g b) = None \<longrightarrow>
            map_of (neighbour_map (grid_at g a)) ori = None \<and>
            ori \<notin> fst ` set (neighbour_map (grid_at g a)))"
proof -
  define d where "d = grid_dims xs ys zs"
  define pg where "pg = prism_grid xs ys zs"
  have c: "consistent xs ys zs g"
    by (rule delete_all_consistent_Inr[OF consistent_init[OF assms(1)] assms(2,3)])
  have a: "in_grid d a" using assms(4) by (simp add: d_def)
  have n: "neighbour_pos ori d a = Some b" using assms(5) by (simp add: d_def)
  have b: "in_grid d b" by (rule neighbour_pos_in_grid[OF a n])
  have n': "neighbour_pos (reverse ori) d b = Some a"
    using neighbour_pos_sym[OF b a, of ori] n by simp
  have cp: "prism (grid_at g q) = None \<or> prism (grid_at g q) = Some (grid_at pg q)"
    and cl: "neighbour_map (grid_at g q) = links pg (present g) d q"
    if "in_grid d q" for q
    using c that unfolding consistent_def d_def pg_def by blast+
  have ma: "map_of (neighbour_map (grid_at g a)) ori =
      (if present g b then Some (grid_at pg b) else None)"
    by (simp add: cl[OF a] map_of_links n del: grid_at.simps)
  have mb: "map_of (neighbour_map (grid_at g b)) (reverse ori) =
      (if present g a then Some (grid_at pg a) else None)"
    by (simp add: cl[OF b] map_of_links n' del: grid_at.simps)
  have dom: "(ori \<notin> fst ` set (neighbour_map (grid_at g a))) =
      (map_of (neighbour_map (grid_at g a)) ori = None)"
    by (simp add: map_of_eq_None_iff del: grid_at.simps)
  show ?thesis
    unfolding dom ma mb using cp[OF a] cp[OF b]
    by (auto simp: present_def simp del: grid_at.simps)
qed

theorem link_consistency_witness:
  "PrismGraph_init [0, 1, 2] [0, 1] [0, 1] = Inr two_cubes \<and>
   in_dims (grid_dims [0, 1, 2 :: real] [0, 1 :: real] [0, 1 :: real]) (1, 0, 0) \<and>
   delete_all two_cubes [] = Inr ([], two_cubes) \<and>
   delete_all two_cubes [(1, 0, 0)] = Inr ([1], two_cubes_del_1) \<and>
   in_grid (grid_dims [0, 1, 2 :: real] [0, 1 :: real] [0, 1 :: real]) (0, 0, 0) \<and>
   neighbour_pos RIGHT (grid_dims [0, 1, 2 :: real] [0, 1 :: real] [0, 1 :: real]) (0, 0, 0) = Some (1, 0, 0) \<and>
   map_of (neighbour_map (grid_at two_cubes (0, 0, 0))) RIGHT = prism (grid_at two_cubes (1, 0, 0)) \<and>
   map_of (neighbour_map (grid_at two_cubes (1, 0, 0))) LEFT = prism (grid_at two_cubes (0, 0, 0)) \<and>
   prism (grid_at two_cubes_del_1 (1, 0, 0)) = None \<and>
   map_of (neighbour_map (grid_at two_cubes_del_1 (0, 0, 0))) RIGHT = None"
proof -
  have h1: "PrismGraph_init [0, 1, 2] [0, 1] [0, 1] = Inr two_cubes"
    by (rule two_cubes_init)
  have h2: "\<forall>pt \<in> set [(1, 0, 0)]. in_dims (grid_dims [0, 1, 2 :: real] [0, 1 :: real] [0, 1 :: real]) pt"
    by (simp add: two_cubes_dims)
  have h2': "\<forall>pt \<in> set []. in_dims (grid_dims [0, 1, 2 :: real] [0, 1 :: real] [0, 1 :: real]) pt"
    by simp
  have h3: "delete_all two_cubes [(1, 0, 0)] = Inr ([1], two_cubes_del_1)"
    by (simp add: two_cubes_delete_1)
  have h3': "delete_all two_cubes [] = Inr ([], two_cubes)"
    by simp
  have h4: "in_grid (grid_dims [0, 1, 2 :: real] [0, 1 :: real] [0, 1 :: real]) (0, 0, 0)"
    by (simp add: two_cubes_dims)
  have h5: "neighbour_pos RIGHT (grid_dims [0, 1, 2 :: real] [0, 1 :: real] [0, 1 :: real]) (0, 0, 0) = Some (1, 0, 0)"
    by (simp add: two_cubes_dims)
  have p: "prism (grid_at two_cubes (0, 0, 0)) \<noteq> None" "prism (grid_at two_cubes (1, 0, 0)) \<noteq> None"
    "prism (grid_at two_cubes_del_1 (1, 0, 0)) = None"
    by (simp_all add: two_cubes_def two_cubes_del_1_def)
  have h2'': "in_dims (grid_dims [0, 1, 2 :: real] [0, 1 :: real] [0, 1 :: real]) (1, 0, 0)"
    using h2 by simp
  show ?thesis
    using link_consistency[OF h1 h2' h3' h4 h5] link_consistency[OF h1 h2 h3 h4 h5]
      h1 h2'' h3 h3' h4 h5 p
    by (simp del: grid_at.simps)
qed

section \<open>The frame of \<open>delete_prism\<close>\<close>

text \<open>
  C6 (as amended). In a graph of rectangular shape, a call of \<open>delete_prism\<close> on a
  position inside the grid whose prism is present returns the volume of that prism
  and sets the prism of that node, and of no other node, to absent. For every
  orientation in which the position has a geometric neighbour, the dictionary of that
  neighbour loses the entry of the reverse orientation, whatever the dictionary of the
  deleted node holds. The dictionary of the deleted node and the dictionaries of the
  nodes that are not geometric neighbours stay as they were.
\<close>

theorem delete_prism_frame:
  assumes "rect_grid d g" and "in_grid d (i, j, k)" and "prism (grid_at g (i, j, k)) = Some pr"
  shows "\<exists>g'. delete_prism g (int i) (int j) (int k) = Inr (volume pr, g') \<and>
     rect_grid d g' \<and>
     prism (grid_at g' (i, j, k)) = None \<and>
     neighbour_map (grid_at g' (i, j, k)) = neighbour_map (grid_at g (i, j, k)) \<and>
     (\<forall>q. in_grid d q \<and> q \<noteq> (i, j, k) \<longrightarrow> prism (grid_at g' q) = prism (grid_at g q)) \<and>
     (\<forall>ori q. neighbour_pos ori d (i, j, k) = Some q \<longrightarrow>
        neighbour_map (grid_at g' q) = dict_pop (reverse ori) (neighbour_map (grid_at g q))) \<and>
     (\<forall>q. in_grid d q \<and> (\<forall>ori. neighbour_pos ori d (i, j, k) \<noteq> Some q) \<longrightarrow>
        neighbour_map (grid_at g' q) = neighbour_map (grid_at g q))"
proof -
  from delete_prism_result[OF assms] obtain g' where
    del: "delete_prism g (int i) (int j) (int k) = Inr (volume pr, g')"
    and r': "rect_grid d g'"
    and pr': "\<And>q. in_grid d q \<Longrightarrow>
        prism (grid_at g' q) = (if q = (i, j, k) then None else prism (grid_at g q))"
    and nm': "\<And>q. in_grid d q \<Longrightarrow> neighbour_map (grid_at g' q) =
          filter (\<lambda>kv. \<forall>ori. neighbour_pos ori d (i, j, k) = Some q \<longrightarrow> fst kv \<noteq> reverse ori)
            (neighbour_map (grid_at g q))"
    by auto
  have far: "neighbour_map (grid_at g' q) = neighbour_map (grid_at g q)"
    if "in_grid d q" "\<forall>ori. neighbour_pos ori d (i, j, k) \<noteq> Some q" for q
    using nm'[OF that(1)] that(2) by simp
  have own: "neighbour_map (grid_at g' (i, j, k)) = neighbour_map (grid_at g (i, j, k))"
    using far[OF assms(2)] neighbour_pos_neq[of _ d "(i, j, k)" "(i, j, k)"] by blast
  have near: "neighbour_map (grid_at g' q) = dict_pop (reverse ori) (neighbour_map (grid_at g q))"
    if n: "neighbour_pos ori d (i, j, k) = Some q" for ori q
  proof -
    have q: "in_grid d q" using neighbour_pos_in_grid[OF assms(2) n] .
    have "(\<forall>ori'. neighbour_pos ori' d (i, j, k) = Some q \<longrightarrow> fst kv \<noteq> reverse ori') =
          (fst kv \<noteq> reverse ori)" for kv :: "Orientation \<times> Prism"
      using n neighbour_pos_inj[OF n] by blast
    then show ?thesis using nm'[OF q] by (simp add: dict_pop_def)
  qed
  show ?thesis
    using del r' pr'[OF assms(2)] own pr' near far by (intro exI[of _ g']) simp
qed

theorem delete_prism_frame_witness:
  "rect_grid (2, 1, 1) two_cubes_del_1 \<and> in_grid (2, 1, 1) (0, 0, 0) \<and>
   prism (grid_at two_cubes_del_1 (0, 0, 0)) = Some cube_0 \<and>
   delete_prism two_cubes_del_1 (int 0) (int 0) (int 0) = Inr (volume cube_0, two_cubes_del_both) \<and>
   neighbour_pos RIGHT (2, 1, 1) (0, 0, 0) = Some (1, 0, 0) \<and>
   neighbour_map (grid_at two_cubes_del_both (1, 0, 0)) =
     dict_pop (reverse RIGHT) (neighbour_map (grid_at two_cubes_del_1 (1, 0, 0)))"
proof -
  have h1: "rect_grid (2, 1, 1) two_cubes_del_1"
    by (simp add: rect_grid_def two_cubes_del_1_def)
  have h2: "in_grid (2, 1, 1) (0, 0, 0)" by simp
  have h3: "prism (grid_at two_cubes_del_1 (0, 0, 0)) = Some cube_0"
    by (simp add: two_cubes_del_1_def)
  have h4: "neighbour_pos RIGHT (2, 1, 1) (0, 0, 0) = Some (1, 0, 0)" by simp
  have v: "volume cube_0 = 1" by (simp add: volume_def cube_0_def)
  from delete_prism_frame[OF h1 h2 h3] obtain g' where
    g': "delete_prism two_cubes_del_1 (int 0) (int 0) (int 0) = Inr (volume cube_0, g')"
    and n: "\<forall>ori q. neighbour_pos ori (2, 1, 1) (0, 0, 0) = Some q \<longrightarrow>
        neighbour_map (grid_at g' q) = dict_pop (reverse ori) (neighbour_map (grid_at two_cubes_del_1 q))"
    by blast
  have e: "g' = two_cubes_del_both" using g' by (simp add: two_cubes_delete_0)
  show ?thesis
    using h1 h2 h3 h4 g' n[rule_format, OF h4] unfolding e by blast
qed

text \<open>
  The claim as stated fails. In the graph of two cubes, after the cube at \<open>(1, 0, 0)\<close> is
  deleted, the node at \<open>(0, 0, 0)\<close> holds no link at all; deleting its prism still removes
  the entry \<open>LEFT\<close> from the dictionary of the node at \<open>(1, 0, 0)\<close>.
\<close>

theorem delete_prism_unlinked_neighbour_counterexample:
  "PrismGraph_init [0, 1, 2] [0, 1] [0, 1] = Inr two_cubes \<and>
   delete_prism two_cubes 1 0 0 = Inr (1, two_cubes_del_1) \<and>
   prism (grid_at two_cubes_del_1 (0, 0, 0)) = Some cube_0 \<and>
   neighbour_map (grid_at two_cubes_del_1 (0, 0, 0)) = [] \<and>
   neighbour_map (grid_at two_cubes_del_1 (1, 0, 0)) = [(LEFT, cube_0)] \<and>
   delete_prism two_cubes_del_1 0 0 0 = Inr (1, two_cubes_del_both) \<and>
   neighbour_map (grid_at two_cubes_del_both (1, 0, 0)) = []"
  by code_simp

section \<open>Volume conservation\<close>

lemma sum_list_concat_map:
  "sum_list (map f (concat xss)) = sum_list (map (\<lambda>xs. sum_list (map f xs)) xss)"
  by (induction xss) simp_all

lemma sum_list_map_nth:
  "sum_list (map h xs) = (\<Sum>i = 0 ..< length xs. h (xs ! i))"
proof -
  have "sum_list (map h xs) = (\<Sum>i = 0 ..< length (map h xs). map h xs ! i)"
    by (rule sum_list_sum_nth)
  also have "\<dots> = (\<Sum>i = 0 ..< length xs. h (xs ! i))"
    by (rule sum.cong) simp_all
  finally show ?thesis .
qed

lemma grid_sum:
  fixes f :: "'a \<Rightarrow> real"
  assumes "rect_grid (nx, ny, nz) g"
  shows "sum_list (map f (concat (concat g))) =
     (\<Sum>i = 0 ..< nx. \<Sum>j = 0 ..< ny. \<Sum>k = 0 ..< nz. f (g ! i ! j ! k))"
proof -
  note D = rect_gridD[OF assms]
  have "sum_list (map f (concat (concat g))) =
      sum_list (map (\<lambda>row. sum_list (map (\<lambda>col. sum_list (map f col)) row)) g)"
    by (simp add: sum_list_concat_map)
  also have "\<dots> = (\<Sum>i = 0 ..< nx. sum_list (map (\<lambda>col. sum_list (map f col)) (g ! i)))"
    by (simp add: sum_list_map_nth D(1))
  also have "\<dots> = (\<Sum>i = 0 ..< nx. \<Sum>j = 0 ..< ny. sum_list (map f (g ! i ! j)))"
    by (rule sum.cong) (simp_all add: sum_list_map_nth D(2))
  also have "\<dots> = (\<Sum>i = 0 ..< nx. \<Sum>j = 0 ..< ny. \<Sum>k = 0 ..< nz. f (g ! i ! j ! k))"
    by (intro sum.cong refl) (simp add: sum_list_map_nth D(3))
  finally show ?thesis .
qed

lemma grid_sum_change:
  fixes f :: "'a \<Rightarrow> real"
  assumes r: "rect_grid d g" and r': "rect_grid d g'" and p: "in_grid d p"
    and same: "\<And>q. in_grid d q \<Longrightarrow> q \<noteq> p \<Longrightarrow> f (grid_at g' q) = f (grid_at g q)"
  shows "sum_list (map f (concat (concat g'))) =
     sum_list (map f (concat (concat g))) + (f (grid_at g' p) - f (grid_at g p))"
proof -
  obtain nx ny nz where d: "d = (nx, ny, nz)" by (cases d)
  obtain i0 j0 k0 where p0: "p = (i0, j0, k0)" by (cases p)
  have i0: "i0 < nx" and j0: "j0 < ny" and k0: "k0 < nz" using p by (simp_all add: d p0)
  define c where "c = f (g' ! i0 ! j0 ! k0) - f (g ! i0 ! j0 ! k0)"
  have pt: "f (g' ! i ! j ! k) =
      f (g ! i ! j ! k) + (if k = k0 then (if j = j0 then (if i = i0 then c else 0) else 0) else 0)"
    if "i < nx" "j < ny" "k < nz" for i j k
  proof (cases "(i, j, k) = p")
    case True
    then show ?thesis by (simp add: p0 c_def)
  next
    case False
    have "f (grid_at g' (i, j, k)) = f (grid_at g (i, j, k))"
      by (rule same) (use that False in \<open>simp_all add: d\<close>)
    then show ?thesis using False by (auto simp: p0)
  qed
  have "(\<Sum>i = 0 ..< nx. \<Sum>j = 0 ..< ny. \<Sum>k = 0 ..< nz. f (g' ! i ! j ! k)) =
      (\<Sum>i = 0 ..< nx. \<Sum>j = 0 ..< ny. \<Sum>k = 0 ..< nz.
         f (g ! i ! j ! k) + (if k = k0 then (if j = j0 then (if i = i0 then c else 0) else 0) else 0))"
    by (intro sum.cong refl) (simp add: pt)
  also have "\<dots> = (\<Sum>i = 0 ..< nx. \<Sum>j = 0 ..< ny. \<Sum>k = 0 ..< nz. f (g ! i ! j ! k)) + c"
    using i0 j0 k0 by (simp add: sum.distrib sum.delta)
  finally show ?thesis
    using grid_sum[OF r[unfolded d], of f] grid_sum[OF r'[unfolded d], of f]
    by (simp add: p0 c_def)
qed

lemma delete_prism_volume:
  assumes "rect_grid d g" "in_grid d (i, j, k)"
    and "delete_prism g (int i) (int j) (int k) = Inr (v, g')"
  shows "rect_grid d g' \<and> total_volume g' = total_volume g - v"
proof (cases "prism (grid_at g (i, j, k))")
  case None
  from delete_prism_absent[OF assms(1,2) None] assms(1,3) show ?thesis by simp
next
  case (Some pr)
  from delete_prism_result[OF assms(1,2) Some] obtain g2 where
    g2: "delete_prism g (int i) (int j) (int k) = Inr (volume pr, g2)"
    and r2: "rect_grid d g2"
    and p2: "\<forall>q. in_grid d q \<longrightarrow>
        prism (grid_at g2 q) = (if q = (i, j, k) then None else prism (grid_at g q)) \<and>
        neighbour_map (grid_at g2 q) =
          filter (\<lambda>kv. \<forall>ori. neighbour_pos ori d (i, j, k) = Some q \<longrightarrow> fst kv \<noteq> reverse ori)
            (neighbour_map (grid_at g q))"
    by blast
  have v: "v = volume pr" and e: "g2 = g'" using g2 assms(3) by simp_all
  have r': "rect_grid d g'" using r2 e by simp
  have pr': "prism (grid_at g' q) = (if q = (i, j, k) then None else prism (grid_at g q))"
    if "in_grid d q" for q
    using p2[rule_format, OF that] e by blast
  have "total_volume g' =
      total_volume g + (node_volume (grid_at g' (i, j, k)) - node_volume (grid_at g (i, j, k)))"
    unfolding total_volume_def
    by (rule grid_sum_change[OF assms(1) r' assms(2)]) (simp add: node_volume_def pr' del: grid_at.simps)
  then show ?thesis
    using r' pr'[OF assms(2)] Some by (simp add: node_volume_def v del: grid_at.simps)
qed

lemma delete_all_volume:
  assumes "rect_grid d g" "\<forall>pt \<in> set ps. in_dims d pt"
  shows "\<exists>vs g'. delete_all g ps = Inr (vs, g') \<and> rect_grid d g' \<and>
     total_volume g - sum_list vs = total_volume g'"
  using assms
proof (induction ps arbitrary: g)
  case Nil
  then show ?case by simp
next
  case (Cons pt ps)
  from Cons.prems(2) have "in_dims d pt" by simp
  then obtain i j k where pt: "pt = (int i, int j, int k)" and p: "in_grid d (i, j, k)"
    by (rule in_dims_nat)
  from delete_prism_total[OF Cons.prems(1) p] obtain v g1 where
    d1: "delete_prism g (int i) (int j) (int k) = Inr (v, g1)" by blast
  note s = delete_prism_volume[OF Cons.prems(1) p d1]
  from Cons.IH[of g1] s Cons.prems(2) obtain vs g' where
    "delete_all g1 ps = Inr (vs, g')" "rect_grid d g'"
    "total_volume g1 - sum_list vs = total_volume g'"
    by auto
  then show ?case using d1 s by (simp add: pt)
qed

text \<open>
  C5. For the graph built from any three sequences (so also from valid ones) and every
  finite sequence of calls of \<open>delete_prism\<close> with indices inside the grid, every call
  returns, and the total volume of the initial graph minus the sum of the returned
  values is the total volume of the prisms still present. Coordinates are real
  numbers, so the equation is one of exact arithmetic.
\<close>

theorem volume_conservation:
  assumes "PrismGraph_init xs ys zs = Inr g0"
    and "\<forall>pt \<in> set ps. in_dims (grid_dims xs ys zs) pt"
  shows "\<exists>vs g. delete_all g0 ps = Inr (vs, g) \<and>
     total_volume g0 - sum_list vs = total_volume g"
  using delete_all_volume[OF PrismGraph_init_props(1)[OF assms(1)] assms(2)] by blast

theorem volume_conservation_witness:
  "PrismGraph_init [0, 1, 2] [0, 1] [0, 1] = Inr two_cubes \<and>
   list_all (in_dims (grid_dims [0, 1, 2 :: real] [0, 1 :: real] [0, 1 :: real]))
     [(1, 0, 0), (0, 0, 0), (1, 0, 0)] \<and>
   delete_all two_cubes [(1, 0, 0), (0, 0, 0), (1, 0, 0)] = Inr ([1, 1, 0], two_cubes_del_both) \<and>
   total_volume two_cubes - sum_list [1, 1, 0] = total_volume two_cubes_del_both \<and>
   total_volume two_cubes = 2 \<and> total_volume two_cubes_del_both = 0"
proof -
  have h1: "PrismGraph_init [0, 1, 2] [0, 1] [0, 1] = Inr two_cubes"
    by (rule two_cubes_init)
  have h2: "\<forall>pt \<in> set [(1, 0, 0), (0, 0, 0), (1, 0, 0)].
      in_dims (grid_dims [0, 1, 2 :: real] [0, 1 :: real] [0, 1 :: real]) pt"
    by (simp add: two_cubes_dims)
  have e: "delete_all two_cubes [(1, 0, 0), (0, 0, 0), (1, 0, 0)] = Inr ([1, 1, 0], two_cubes_del_both)"
    by code_simp
  have t: "total_volume two_cubes = 2" "total_volume two_cubes_del_both = 0"
    by code_simp+
  from volume_conservation[OF h1 h2] obtain vs g where
    "delete_all two_cubes [(1, 0, 0), (0, 0, 0), (1, 0, 0)] = Inr (vs, g)"
    "total_volume two_cubes - sum_list vs = total_volume g"
    by blast
  then have "total_volume two_cubes - sum_list [1, 1, 0] = total_volume two_cubes_del_both"
    unfolding e by simp
  moreover have "list_all (in_dims (grid_dims [0, 1, 2 :: real] [0, 1 :: real] [0, 1 :: real]))
     [(1, 0, 0), (0, 0, 0), (1, 0, 0)]"
    using h2 unfolding list_all_iff by blast
  ultimately show ?thesis using h1 e t by blast
qed

section \<open>Winding and normals\<close>

lemma triangle_slice_contains:
  assumes "r \<in> set (rectangles p)" "VOrientation (orientation r) \<notin> set suppress"
  shows "\<exists>a b. triangle_slice p (Some suppress) = a @ faces r @ b"
proof -
  have "r \<in> set (filter (\<lambda>r. VOrientation (orientation r) \<notin> set suppress) (rectangles p))"
    using assms by simp
  then obtain us vs where
    "filter (\<lambda>r. VOrientation (orientation r) \<notin> set suppress) (rectangles p) = us @ r # vs"
    by (meson split_list)
  then have "triangle_slice p (Some suppress) = concat (map faces us) @ faces r @ concat (map faces vs)"
    by (cases suppress) (simp_all add: triangle_slice_def)
  then show ?thesis by blast
qed

lemma valid_prism_corners:
  assumes "valid_prism p" "r \<in> set (rectangles p)"
  shows "tl_corner r \<noteq> tr r"
proof -
  obtain x y z where a: "vx_000 p = (x, y, z)" by (cases "vx_000 p")
  obtain xn yn zn where b: "vx_111 p = (xn, yn, zn)" by (cases "vx_111 p")
  show ?thesis
    using assms by (auto simp: valid_prism_def a b rectangles_def)
qed

text \<open>
  C2 (as amended). Every rectangle of a prism whose orientation is not suppressed
  contributes its two triangles to the output of \<open>triangle_slice\<close>. They are
  \<open>(ll, tr, tl)\<close> then \<open>(ll, lr, tr)\<close> when the orientation is \<open>UP\<close>, \<open>RIGHT\<close> or \<open>OUT_OF\<close>,
  and \<open>(ll, tl, tr)\<close> then \<open>(ll, tr, lr)\<close> when it is \<open>DOWN\<close>, \<open>LEFT\<close> or \<open>INTO\<close>. For a valid
  prism the two orders differ, so each is used exactly for its three orientations.
\<close>

theorem faces_winding:
  assumes "r \<in> set (rectangles p)" and "VOrientation (orientation r) \<notin> set suppress"
  shows "(\<exists>a b. triangle_slice p (Some suppress) = a @ faces r @ b) \<and>
     (orientation r \<in> {UP, RIGHT, OUT_OF} \<longrightarrow>
        faces r = [[ll r, tr r, tl_corner r], [ll r, lr r, tr r]]) \<and>
     (orientation r \<in> {DOWN, LEFT, INTO} \<longrightarrow>
        faces r = [[ll r, tl_corner r, tr r], [ll r, tr r, lr r]]) \<and>
     (valid_prism p \<longrightarrow>
        (faces r = [[ll r, tr r, tl_corner r], [ll r, lr r, tr r]]) =
          (orientation r \<in> {UP, RIGHT, OUT_OF}) \<and>
        (faces r = [[ll r, tl_corner r, tr r], [ll r, tr r, lr r]]) =
          (orientation r \<in> {DOWN, LEFT, INTO}))"
proof -
  have 1: "\<exists>a b. triangle_slice p (Some suppress) = a @ faces r @ b"
    by (rule triangle_slice_contains[OF assms])
  have 2: "orientation r \<in> {UP, RIGHT, OUT_OF} \<longrightarrow>
        faces r = [[ll r, tr r, tl_corner r], [ll r, lr r, tr r]]"
    by (simp add: faces_def)
  have 3: "orientation r \<in> {DOWN, LEFT, INTO} \<longrightarrow>
        faces r = [[ll r, tl_corner r, tr r], [ll r, tr r, lr r]]"
    by (auto simp: faces_def)
  have 4: "(faces r = [[ll r, tr r, tl_corner r], [ll r, lr r, tr r]]) =
          (orientation r \<in> {UP, RIGHT, OUT_OF}) \<and>
        (faces r = [[ll r, tl_corner r, tr r], [ll r, tr r, lr r]]) =
          (orientation r \<in> {DOWN, LEFT, INTO})" if "valid_prism p"
    using valid_prism_corners[OF that assms(1)]
    by (cases "orientation r") (auto simp: faces_def)
  show ?thesis using 1 2 3 4 by blast
qed

theorem faces_winding_witness:
  "\<lparr>ll = vx_010 cube_0, tl_corner = vx_011 cube_0, lr = vx_110 cube_0, tr = vx_111 cube_0,
     orientation = INTO\<rparr> \<in> set (rectangles cube_0) \<and>
   VOrientation INTO \<notin> set [VOrientation LEFT] \<and>
   valid_prism cube_0 \<and>
   faces \<lparr>ll = vx_010 cube_0, tl_corner = vx_011 cube_0, lr = vx_110 cube_0, tr = vx_111 cube_0,
          orientation = INTO\<rparr> =
     [[vx_010 cube_0, vx_011 cube_0, vx_111 cube_0], [vx_010 cube_0, vx_111 cube_0, vx_110 cube_0]] \<and>
   faces \<lparr>ll = vx_010 cube_0, tl_corner = vx_011 cube_0, lr = vx_110 cube_0, tr = vx_111 cube_0,
          orientation = INTO\<rparr> \<noteq>
     [[vx_010 cube_0, vx_111 cube_0, vx_011 cube_0], [vx_010 cube_0, vx_110 cube_0, vx_111 cube_0]]"
proof -
  define r where "r = \<lparr>ll = vx_010 cube_0, tl_corner = vx_011 cube_0, lr = vx_110 cube_0,
     tr = vx_111 cube_0, orientation = INTO\<rparr>"
  have h1: "r \<in> set (rectangles cube_0)" by (simp add: r_def rectangles_def)
  have h2: "VOrientation (orientation r) \<notin> set [VOrientation LEFT]" by (simp add: r_def)
  have v: "valid_prism cube_0" by (simp add: valid_prism_def cube_0_def)
  have o: "orientation r \<in> {DOWN, LEFT, INTO}" "orientation r \<notin> {UP, RIGHT, OUT_OF}"
    by (simp_all add: r_def)
  from faces_winding[OF h1 h2] v o have
    f1: "faces r = [[ll r, tl_corner r, tr r], [ll r, tr r, lr r]]"
    and f2: "faces r \<noteq> [[ll r, tr r, tl_corner r], [ll r, lr r, tr r]]"
    by blast+
  have s: "ll r = vx_010 cube_0" "tl_corner r = vx_011 cube_0" "lr r = vx_110 cube_0"
    "tr r = vx_111 cube_0" "orientation r = INTO"
    by (simp_all add: r_def)
  show ?thesis
    using h1 h2 v f1 f2 unfolding s unfolding r_def by blast
qed

text \<open>
  The claim as stated fails for the orientations \<open>INTO\<close> and \<open>OUT_OF\<close>: the face \<open>INTO\<close> of
  the unit cube is emitted in the order \<open>(ll, tl, tr)\<close>, \<open>(ll, tr, lr)\<close> and the face
  \<open>OUT_OF\<close> in the order \<open>(ll, tr, tl)\<close>, \<open>(ll, lr, tr)\<close>.
\<close>

theorem winding_into_out_of_counterexample:
  "triangle_slice cube_0
      (Some [VOrientation LEFT, VOrientation RIGHT, VOrientation UP, VOrientation DOWN,
             VOrientation OUT_OF]) =
     [[(0, 1, 0), (0, 1, 1), (1, 1, 1)], [(0, 1, 0), (1, 1, 1), (1, 1, 0)]] \<and>
   [[(0, 1, 0), (0, 1, 1), (1, 1, 1)], [(0, 1, 0), (1, 1, 1), (1, 1, 0)]] \<noteq>
     [[(0, 1, 0), (1, 1, 1), (0, 1, 1)], [(0, 1, 0), (1, 1, 0), (1, 1, 1 :: real)]] \<and>
   triangle_slice cube_0
      (Some [VOrientation LEFT, VOrientation RIGHT, VOrientation UP, VOrientation DOWN,
             VOrientation INTO]) =
     [[(0, 0, 0), (1, 0, 1), (0, 0, 1)], [(0, 0, 0), (1, 0, 0), (1, 0, 1)]] \<and>
   [[(0, 0, 0), (1, 0, 1), (0, 0, 1)], [(0, 0, 0), (1, 0, 0), (1, 0, 1)]] \<noteq>
     [[(0, 0, 0), (0, 0, 1), (1, 0, 1)], [(0, 0, 0), (1, 0, 1), (1, 0, 0 :: real)]]"
  by (simp add: triangle_slice_def rectangles_def faces_def cube_0_def)

lemma outward_faces:
  fixes x y z dx dy dz :: real
  assumes "0 < dx" "0 < dy" "0 < dz"
    and p: "p = \<lparr>vx_000 = (x, y, z), vx_001 = (x, y, z + dz),
        vx_010 = (x, y + dy, z), vx_011 = (x, y + dy, z + dz),
        vx_100 = (x + dx, y, z), vx_101 = (x + dx, y, z + dz),
        vx_110 = (x + dx, y + dy, z), vx_111 = (x + dx, y + dy, z + dz)\<rparr>"
    and t: "t \<in> set (concat (map faces (rectangles p)))"
  shows "outward p t"
proof -
  have pos: "0 < dx * dy * dz" using assms(1-3) by simp
  have c: "centroid p = (x + dx / 2, y + dy / 2, z + dz / 2)"
    by (simp add: centroid_def p)
  have "length t = 3 \<and> (\<forall>v \<in> set t. dot (normal t) (sub3 v (centroid p)) = dx * dy * dz / 2)"
    using t unfolding c
    by (auto simp: p rectangles_def faces_def algebra_simps)
  then have l: "length t = 3"
    and e: "\<And>v. v \<in> set t \<Longrightarrow> dot (normal t) (sub3 v (centroid p)) = dx * dy * dz / 2"
    by blast+
  have "0 < dot (normal t) (sub3 v (centroid p))" if "v \<in> set t" for v
    unfolding e[OF that] using pos by simp
  then show ?thesis
    using l unfolding outward_def list_all_iff by blast
qed

text \<open>
  C3. For every valid prism the face enumeration with an empty suppression set (the
  default \<open>None\<close> or an empty collection) yields exactly 12 triangles, and the normal of
  each of them points away from the centroid of the prism.
\<close>

theorem triangle_slice_outward:
  assumes "valid_prism p"
  shows "length (triangle_slice p None) = 12 \<and>
     triangle_slice p (Some []) = triangle_slice p None \<and>
     (\<forall>t \<in> set (triangle_slice p None). outward p t)"
proof -
  obtain x y z where a: "vx_000 p = (x, y, z)" by (cases "vx_000 p")
  obtain xn yn zn where b: "vx_111 p = (xn, yn, zn)" by (cases "vx_111 p")
  have v: "x < xn" "y < yn" "z < zn"
    "vx_001 p = (x, y, zn)" "vx_010 p = (x, yn, z)" "vx_011 p = (x, yn, zn)"
    "vx_100 p = (xn, y, z)" "vx_101 p = (xn, y, zn)" "vx_110 p = (xn, yn, z)"
    using assms by (simp_all add: valid_prism_def a b)
  have p: "p = \<lparr>vx_000 = (x, y, z), vx_001 = (x, y, z + (zn - z)),
        vx_010 = (x, y + (yn - y), z), vx_011 = (x, y + (yn - y), z + (zn - z)),
        vx_100 = (x + (xn - x), y, z), vx_101 = (x + (xn - x), y, z + (zn - z)),
        vx_110 = (x + (xn - x), y + (yn - y), z),
        vx_111 = (x + (xn - x), y + (yn - y), z + (zn - z))\<rparr>"
    using a b v(4-9) by (cases p) simp
  have s: "triangle_slice p None = concat (map faces (rectangles p))"
    by (simp add: triangle_slice_def)
  have "outward p t" if "t \<in> set (triangle_slice p None)" for t
    using that unfolding s
    by (rule outward_faces[rotated 3, OF p]) (use v(1-3) in simp_all)
  moreover have "length (triangle_slice p None) = 12"
    unfolding s by (rule length_all_faces)
  moreover have "triangle_slice p (Some []) = triangle_slice p None"
    by (simp add: triangle_slice_def)
  ultimately show ?thesis by blast
qed

theorem triangle_slice_outward_witness:
  "valid_prism cube_0 \<and> length (triangle_slice cube_0 None) = 12 \<and>
   list_all (outward cube_0) (triangle_slice cube_0 None) \<and>
   [(0, 0, 0), (0, 0, 1), (0, 1, 1)] \<in> set (triangle_slice cube_0 None) \<and>
   normal [(0, 0, 0), (0, 0, 1), (0, 1, 1)] = (- 1, 0, 0) \<and>
   centroid cube_0 = (1 / 2, 1 / 2, 1 / 2)"
proof -
  have v: "valid_prism cube_0" by (simp add: valid_prism_def cube_0_def)
  have m: "[(0, 0, 0), (0, 0, 1), (0, 1, 1)] \<in> set (triangle_slice cube_0 None)"
    by (simp add: triangle_slice_def rectangles_def faces_def cube_0_def)
  have n: "normal [(0, 0, 0), (0, 0, 1), (0, 1, 1)] = (- 1, 0, 0)" by simp
  have c: "centroid cube_0 = (1 / 2, 1 / 2, 1 / 2)" by (simp add: centroid_def cube_0_def)
  have "list_all (outward cube_0) (triangle_slice cube_0 None)"
    using triangle_slice_outward[OF v] unfolding list_all_iff by blast
  then show ?thesis
    using triangle_slice_outward[OF v] v m n c by blast
qed

section \<open>Faces between two present prisms\<close>

text \<open>
  C1. The claim asks that a face whose neighbouring prism is present be left out of
  the mesh. The code does not do so: in the graph of two cubes, both present, the node
  at \<open>(0, 0, 0)\<close> has a link \<open>RIGHT\<close> to the cube at \<open>(1, 0, 0)\<close>, and still \<open>to_mesh\<close> emits
  all 24 triangles, among them the two of the face \<open>RIGHT\<close> of the first cube and the
  two of the face \<open>LEFT\<close> of the second, which lie in the shared plane \<open>x = 1\<close>.
\<close>

theorem to_mesh_emits_interior_faces:
  "PrismGraph_init [0, 1, 2] [0, 1] [0, 1] = Inr two_cubes \<and>
   prism (grid_at two_cubes (0, 0, 0)) = Some cube_0 \<and>
   prism (grid_at two_cubes (1, 0, 0)) = Some cube_1 \<and>
   map_of (neighbour_map (grid_at two_cubes (0, 0, 0))) RIGHT = Some cube_1 \<and>
   map_of (neighbour_map (grid_at two_cubes (1, 0, 0))) LEFT = Some cube_0 \<and>
   length (to_mesh two_cubes) = 24 \<and>
   [(1, 0, 0), (1, 1, 1), (1, 0, 1)] \<in> set (to_mesh two_cubes) \<and>
   [(1, 0, 0), (1, 1, 0), (1, 1, 1)] \<in> set (to_mesh two_cubes) \<and>
   [(1, 0, 0), (1, 0, 1), (1, 1, 1)] \<in> set (to_mesh two_cubes) \<and>
   [(1, 0, 0), (1, 1, 1), (1, 1, 0)] \<in> set (to_mesh two_cubes)"
  by code_simp

end
